theory Spec2Isabelle
  imports Complex_Main
begin

section \<open>JavaScript numbers\<close>

text \<open>
  All values the planners of \<^verbatim>\<open>src/App.jsx\<close> compute with are JavaScript numbers.
  A number is modelled as a finite value, one of the two infinities, or NaN.  The special
  values follow IEEE 754 as JavaScript does: NaN is absorbing and compares false with
  everything, \<open>Infinity - Infinity\<close> and \<open>0 * Infinity\<close> are NaN.  Finite values are exact
  reals: the rounding error of binary floating point, overflow of finite values to
  \<open>Infinity\<close>, and the sign of zero are not modelled, with one exception.  The running
  weight of the fixed-drop loop is rounded to a double at every subtraction (\<open>fsub\<close>
  below), because the number of rows that loop returns depends on the rounding.
\<close>

datatype number = Fin real | PInf | NInf | NaN

instantiation number :: "{plus, minus, uminus, times, inverse, ord}"
begin

fun uminus_number :: "number \<Rightarrow> number" where
  "uminus_number (Fin a) = Fin (- a)"
| "uminus_number PInf = NInf"
| "uminus_number NInf = PInf"
| "uminus_number NaN = NaN"

fun plus_number :: "number \<Rightarrow> number \<Rightarrow> number" where
  "plus_number (Fin a) (Fin b) = Fin (a + b)"
| "plus_number NaN y = NaN"
| "plus_number x NaN = NaN"
| "plus_number PInf NInf = NaN"
| "plus_number NInf PInf = NaN"
| "plus_number PInf y = PInf"
| "plus_number x PInf = PInf"
| "plus_number NInf y = NInf"
| "plus_number x NInf = NInf"

definition minus_number :: "number \<Rightarrow> number \<Rightarrow> number" where
  "minus_number x y = x + (- y)"

fun times_number :: "number \<Rightarrow> number \<Rightarrow> number" where
  "times_number (Fin a) (Fin b) = Fin (a * b)"
| "times_number NaN y = NaN"
| "times_number x NaN = NaN"
| "times_number (Fin a) PInf = (if a = 0 then NaN else if 0 < a then PInf else NInf)"
| "times_number (Fin a) NInf = (if a = 0 then NaN else if 0 < a then NInf else PInf)"
| "times_number PInf (Fin b) = (if b = 0 then NaN else if 0 < b then PInf else NInf)"
| "times_number NInf (Fin b) = (if b = 0 then NaN else if 0 < b then NInf else PInf)"
| "times_number PInf PInf = PInf"
| "times_number PInf NInf = NInf"
| "times_number NInf PInf = NInf"
| "times_number NInf NInf = PInf"

text \<open>Division by a zero takes the zero as positive; no planner divides by zero.\<close>

fun divide_number :: "number \<Rightarrow> number \<Rightarrow> number" where
  "divide_number (Fin a) (Fin b) =
     (if b = 0 then (if a = 0 then NaN else if 0 < a then PInf else NInf) else Fin (a / b))"
| "divide_number NaN y = NaN"
| "divide_number x NaN = NaN"
| "divide_number (Fin a) PInf = Fin 0"
| "divide_number (Fin a) NInf = Fin 0"
| "divide_number PInf (Fin b) = (if 0 \<le> b then PInf else NInf)"
| "divide_number NInf (Fin b) = (if 0 \<le> b then NInf else PInf)"
| "divide_number PInf y = NaN"
| "divide_number NInf y = NaN"

definition inverse_number :: "number \<Rightarrow> number" where
  "inverse_number x = divide (Fin 1) x"

fun less_eq_number :: "number \<Rightarrow> number \<Rightarrow> bool" where
  "less_eq_number (Fin a) (Fin b) = (a \<le> b)"
| "less_eq_number NaN y = False"
| "less_eq_number x NaN = False"
| "less_eq_number NInf y = True"
| "less_eq_number x PInf = True"
| "less_eq_number PInf y = False"
| "less_eq_number x NInf = False"

fun less_number :: "number \<Rightarrow> number \<Rightarrow> bool" where
  "less_number (Fin a) (Fin b) = (a < b)"
| "less_number NaN y = False"
| "less_number x NaN = False"
| "less_number PInf y = False"
| "less_number x NInf = False"
| "less_number NInf y = True"
| "less_number x PInf = True"

instance ..

end

text \<open>\<^verbatim>\<open>!x\<close> is true of \<open>0\<close> and NaN only.\<close>

fun truthy :: "number \<Rightarrow> bool" where
  "truthy (Fin a) = (a \<noteq> 0)"
| "truthy PInf = True"
| "truthy NInf = True"
| "truthy NaN = False"

text \<open>\<^verbatim>\<open>x !== y\<close> on numbers: NaN differs from everything, itself included.\<close>

definition strict_neq :: "number \<Rightarrow> number \<Rightarrow> bool" where
  "strict_neq x y = (x = NaN \<or> y = NaN \<or> x \<noteq> y)"

text \<open>\<^verbatim>\<open>Math.round\<close> rounds to the nearest integer, a tie towards \<open>+Infinity\<close>.\<close>

fun Math_round :: "number \<Rightarrow> number" where
  "Math_round (Fin a) = Fin (of_int (round a))"
| "Math_round x = x"

fun Math_floor :: "number \<Rightarrow> number" where
  "Math_floor (Fin a) = Fin (of_int \<lfloor>a\<rfloor>)"
| "Math_floor x = x"

fun Math_abs :: "number \<Rightarrow> number" where
  "Math_abs (Fin a) = Fin \<bar>a\<bar>"
| "Math_abs PInf = PInf"
| "Math_abs NInf = PInf"
| "Math_abs NaN = NaN"

text \<open>\<^verbatim>\<open>Math.max\<close> and \<^verbatim>\<open>Math.min\<close> of two numbers are NaN when either is.\<close>

definition Math_max :: "number \<Rightarrow> number \<Rightarrow> number" where
  "Math_max x y = (if x = NaN \<or> y = NaN then NaN else if x \<le> y then y else x)"

definition Math_min :: "number \<Rightarrow> number \<Rightarrow> number" where
  "Math_min x y = (if x = NaN \<or> y = NaN then NaN else if x \<le> y then x else y)"

subsection \<open>Rounding to a double\<close>

text \<open>
  \<open>toDouble x\<close> is the IEEE 754 binary64 value nearest to the real \<open>x\<close>, a tie going to the
  even mantissa, and an infinity from \<open>2^1024\<close> on.  \<open>binExp a\<close> is the binary exponent of
  \<open>a > 0\<close>, the integer \<open>e\<close> with \<open>2^e \<le> a < 2^(e + 1)\<close>; it is at least \<open>-1022\<close> in a
  double, below which the values are subnormal and spaced \<open>2^(-1074)\<close> apart.
  \<open>fsub x y\<close> is the subtraction \<^verbatim>\<open>x - y\<close> of two doubles.
\<close>

fun bits :: "nat \<Rightarrow> nat" where
  "bits n = (if n = 0 then 0 else Suc (bits (n div 2)))"

declare bits.simps [simp del]

definition binExp :: "real \<Rightarrow> int" where
  "binExp a = (if 1 \<le> a then int (bits (nat \<lfloor>a\<rfloor>)) - 1
               else - int (bits (nat (\<lceil>1 / a\<rceil> - 1))))"

definition pow2 :: "int \<Rightarrow> real" where
  "pow2 k = (if 0 \<le> k then 2 ^ nat k else 1 / 2 ^ nat (- k))"

definition roundHalfEven :: "real \<Rightarrow> int" where
  "roundHalfEven m =
     (let n = \<lfloor>m\<rfloor>; f = m - of_int n
      in if f < 1 / 2 then n else if 1 / 2 < f then n + 1
         else if even n then n else n + 1)"

definition toDouble :: "real \<Rightarrow> number" where
  "toDouble x =
     (if x = 0 then Fin 0
      else
        let a = \<bar>x\<bar>;
            e = max (binExp a) (- 1022);
            ulp = pow2 (e - 52);
            y = of_int (roundHalfEven (a / ulp)) * ulp
        in if 2 ^ 1024 \<le> y then (if 0 < x then PInf else NInf)
           else Fin (if 0 < x then y else - y))"

definition fsub :: "number \<Rightarrow> number \<Rightarrow> number" where
  "fsub x y = (case x - y of Fin r \<Rightarrow> toDouble r | v \<Rightarrow> v)"

section \<open>Utils\<close>

definition EPSILON :: number where
  "EPSILON = Fin (1 / 2 ^ 52)"

definition round2 :: "number \<Rightarrow> number" where
  "round2 n = Math_round ((n + EPSILON) * Fin 100) / Fin 100"

definition roundToNearest2point5 :: "number \<Rightarrow> number" where
  "roundToNearest2point5 n = Math_round (n / Fin 2.5) * Fin 2.5"

definition BAR :: number where
  "BAR = Fin 20"

section \<open>Ladder plan\<close>

text \<open>
  A ladder row \<^verbatim>\<open>{ weight, reps }\<close>; \<^verbatim>\<open>external\<close> is set on the rows of a pull-up
  ladder only.
\<close>

record row =
  weight :: number
  reps :: number
  external :: "number option"

datatype start = Start (start_weight: number) (start_reps: number)

record ladder_plan =
  sets :: "row list"
  tonnage :: number
  start :: "start option"

text \<open>
  The start point of the ladder (lines 42 to 70 of \<^verbatim>\<open>App.jsx\<close>), as the pair
  \<open>(startReps, startWeight)\<close>.
\<close>

definition startPoint :: "number \<Rightarrow> number \<Rightarrow> number \<Rightarrow> bool \<Rightarrow> number \<times> number" where
  "startPoint targetTop increment startRepCap isPullup =
     (if isPullup then
        let maxRungsFromZero = Math_floor (Fin 1 + targetTop / increment);
            startReps = Math_max (Fin 1) (Math_min startRepCap maxRungsFromZero);
            startWeight = targetTop - increment * (startReps - Fin 1)
        in (startReps, if startWeight < Fin 0 then Fin 0 else startWeight)
      else
        let base = BAR;
            rawR0 = Fin 1 + (targetTop - base) / increment;
            r0Rounded = Math_round rawR0
        in if r0Rounded \<le> startRepCap \<and> r0Rounded \<ge> Fin 1 then (r0Rounded, base)
           else
             let startReps = startRepCap;
                 startWeight = targetTop - increment * (startReps - Fin 1)
             in if startWeight < BAR
                then (Math_max (Fin 1) (Math_min startRepCap
                        (Fin 1 + Math_floor ((targetTop - BAR) / increment))), BAR)
                else (startReps, startWeight))"

text \<open>
  The loop that builds the ladder upward (lines 73 to 82).  It returns the whole loop
  state at exit: the rows, \<open>reps\<close>, \<open>w\<close> and the \<open>guard\<close> counter.  \<^verbatim>\<open>reps -= 1\<close> is the exact
  \<open>r - 1\<close>.  The subtraction of doubles agrees with it for \<open>reps\<close> from 1 to \<open>2^53\<close>; above
  \<open>2^53\<close> it can leave \<open>reps\<close> unchanged, which the model does not show.
\<close>

function ladderLoop ::
  "number \<Rightarrow> number \<Rightarrow> row list \<Rightarrow> number \<Rightarrow> number \<Rightarrow> nat
    \<Rightarrow> row list \<times> number \<times> number \<times> nat" where
  "ladderLoop targetTop increment rows r w guard =
     (if r \<ge> Fin 1 \<and> w \<le> targetTop + Fin (1 / 1000000) \<and> guard < 400
      then ladderLoop targetTop increment
             (rows @ [\<lparr>weight = roundToNearest2point5 w, reps = r, external = None\<rparr>])
             (r - Fin 1) (w + increment) (Suc guard)
      else (rows, r, w, guard))"
  by pat_completeness auto
termination
  by (relation "measure (\<lambda>(targetTop, increment, rows, r, w, guard). 400 - guard)") auto

declare ladderLoop.simps [simp del]

text \<open>The final single at \<open>targetTop\<close> (lines 85 to 88).\<close>

definition finalSingle :: "number \<Rightarrow> row list \<Rightarrow> row list" where
  "finalSingle targetTop rows =
     (let single = \<lparr>weight = roundToNearest2point5 targetTop, reps = Fin 1, external = None\<rparr>
      in if rows = [] then rows @ [single]
         else if Math_abs (weight (last rows) - targetTop) > Fin 2.5
                 \<or> strict_neq (reps (last rows)) (Fin 1)
              then (if targetTop > weight (last rows) then rows @ [single] else rows)
              else rows)"

text \<open>
  \<open>ladderPlan\<close> (lines 37 to 102).  The arguments are the fields of the object the
  JavaScript function takes; a caller that leaves out \<open>startRepCap\<close>, \<open>isPullup\<close> or
  \<open>bodyweight\<close> gets the defaults \<open>12\<close>, \<open>false\<close> and \<open>80\<close>.  \<open>start\<close> is \<open>None\<close> for \<^verbatim>\<open>null\<close>.
\<close>

definition ladderPlan :: "number \<Rightarrow> number \<Rightarrow> number \<Rightarrow> bool \<Rightarrow> number \<Rightarrow> ladder_plan" where
  "ladderPlan dailyMax increment startRepCap isPullup bodyweight =
     (if \<not> truthy dailyMax \<or> \<not> truthy increment
      then \<lparr>sets = [], tonnage = Fin 0, start = None\<rparr>
      else
        let targetTop = dailyMax;
            (startReps, startWeight) = startPoint targetTop increment startRepCap isPullup;
            rows = fst (ladderLoop targetTop increment [] startReps startWeight 0);
            rows = finalSingle targetTop rows;
            tonnage = round2 (foldl (\<lambda>sum s. sum + weight s * reps s) (Fin 0) rows);
            rows = (if isPullup
                    then map (\<lambda>s. s\<lparr>external := Some (round2 (weight s - bodyweight))\<rparr>) rows
                    else rows)
        in \<lparr>sets = rows, tonnage = tonnage,
            start = Some (Start (roundToNearest2point5 startWeight) startReps)\<rparr>)"

section \<open>Reverse pyramid, percent\<close>

text \<open>
  A row \<^verbatim>\<open>{ weight, reps, note }\<close> of the percent plan.  \<open>reps\<close> is a string such as
  \<^verbatim>\<open>"3+"\<close>.  \<open>note\<close> is the template string \<^verbatim>\<open>`${n}%`\<close>; the model keeps the
  number \<open>n\<close> it is printed from.
\<close>

record pct_row =
  weight_pct :: number
  reps_pct :: string
  note_pct :: number

record percent_plan =
  sets_pct :: "pct_row list"
  tonnage_pct :: number
  heavyReps :: number

definition scheme :: "(number \<times> string) list" where
  "scheme = [(Fin 0.9, ''1+''), (Fin 0.85, ''2+''), (Fin 0.8, ''3+''),
             (Fin 0.75, ''4+''), (Fin 0.7, ''5+'')]"

text \<open>
  \<^verbatim>\<open>parseInt\<close> on a string that starts with decimal digits or with no number at all
  (the strings of \<open>scheme\<close> are of this kind): the value of the leading digits, NaN when
  there is none.  Leading white space, signs and radix prefixes are not modelled.
\<close>

definition is_digit :: "char \<Rightarrow> bool" where
  "is_digit c = ((48::nat) \<le> of_char c \<and> of_char c \<le> (57::nat))"

definition parseInt :: "string \<Rightarrow> number" where
  "parseInt s =
     (let ds = takeWhile is_digit s
      in if ds = [] then NaN
         else Fin (of_nat (foldl (\<lambda>a c. 10 * a + (of_char c - 48)) (0::nat) ds)))"

text \<open>\<^verbatim>\<open>x || 0\<close> on a number.\<close>

definition or_zero :: "number \<Rightarrow> number" where
  "or_zero x = (if truthy x then x else Fin 0)"

text \<open>\<open>rpPercentPlan\<close> (lines 104 to 121).\<close>

definition rpPercentPlan :: "number \<Rightarrow> percent_plan" where
  "rpPercentPlan dailyMax =
     (if \<not> truthy dailyMax then \<lparr>sets_pct = [], tonnage_pct = Fin 0, heavyReps = Fin 0\<rparr>
      else
        let rows = map (\<lambda>(pct, r).
                     \<lparr>weight_pct = roundToNearest2point5 (pct * dailyMax), reps_pct = r,
                      note_pct = Math_round (pct * Fin 100)\<rparr>) scheme;
            tonnage = round2 (foldl (\<lambda>a b. a + weight_pct b * or_zero (parseInt (reps_pct b)))
                                (Fin 0) rows);
            heavy = foldl (\<lambda>a b. a + or_zero (parseInt (reps_pct b))) (Fin 0)
                      (filter (\<lambda>s. weight_pct s \<ge> Fin 0.8 * dailyMax) rows)
        in \<lparr>sets_pct = rows, tonnage_pct = tonnage, heavyReps = heavy\<rparr>)"

section \<open>Reverse pyramid, fixed drop\<close>

text \<open>
  A back-off row \<^verbatim>\<open>{ weight, reps, note }\<close>.  \<open>reps\<close> is \<open>None\<close> when it is
  \<^verbatim>\<open>undefined\<close> (an empty \<open>repScheme\<close>).  \<open>note\<close> is the template string
  \<^verbatim>\<open>`-${drop} kg`\<close>; the model keeps the number it is printed from.
\<close>

record drop_row =
  weight_drop :: number
  reps_drop :: "number option"
  note_drop :: number

record drop_plan =
  topSingle :: "number option"
  sets_drop :: "drop_row list"
  tonnage_drop :: number

text \<open>\<^verbatim>\<open>repScheme[i] ?? repScheme[repScheme.length - 1]\<close>\<close>

definition schemeReps :: "number list \<Rightarrow> nat \<Rightarrow> number option" where
  "schemeReps repScheme i =
     (if i < length repScheme then Some (repScheme ! i)
      else if repScheme = [] then None
      else Some (last repScheme))"

text \<open>
  The loop \<^verbatim>\<open>for (let i = 0; i < sets; i++)\<close> of lines 128 to 133.  \<open>sets\<close> is any
  number; with \<open>sets = Infinity\<close> the loop ends at the \<^verbatim>\<open>break\<close> only, so it need not
  return, and the result is optional: \<open>None\<close> stands for a loop that runs forever.
  \<^verbatim>\<open>w = w - drop\<close> is the subtraction of doubles, \<open>fsub\<close>.
\<close>

partial_function (option) dropLoop ::
  "number \<Rightarrow> number \<Rightarrow> number list \<Rightarrow> nat \<Rightarrow> number \<Rightarrow> drop_row list \<Rightarrow> drop_row list option"
  where
  "dropLoop drp nsets repScheme i w rows =
     (if Fin (real i) < nsets
      then (let w' = fsub w drp
            in if w' \<le> Fin 0 then Some rows
               else dropLoop drp nsets repScheme (Suc i) w'
                      (rows @ [\<lparr>weight_drop = roundToNearest2point5 w',
                                reps_drop = schemeReps repScheme i, note_drop = drp\<rparr>]))
      else Some rows)"

declare dropLoop.simps [code]

text \<open>\<^verbatim>\<open>b.weight * b.reps\<close>, NaN when \<open>reps\<close> is undefined.\<close>

definition rowTonnage :: "drop_row \<Rightarrow> number" where
  "rowTonnage b = (case reps_drop b of None \<Rightarrow> NaN | Some r \<Rightarrow> weight_drop b * r)"

text \<open>
  \<open>rpFixedDropPlan\<close> (lines 123 to 136); the defaults of \<open>drop\<close>, \<open>sets\<close> and \<open>repScheme\<close>
  are \<open>10\<close>, \<open>4\<close> and \<open>[3, 5, 7, 9]\<close>.  \<open>topSingle\<close> is \<open>None\<close> for \<^verbatim>\<open>null\<close>.
\<close>

definition rpFixedDropPlan ::
  "number \<Rightarrow> number \<Rightarrow> number \<Rightarrow> number list \<Rightarrow> drop_plan option" where
  "rpFixedDropPlan dailyMax drp nsets repScheme =
     (if \<not> truthy dailyMax then Some \<lparr>topSingle = None, sets_drop = [], tonnage_drop = Fin 0\<rparr>
      else
        let top1 = roundToNearest2point5 (Fin 0.95 * dailyMax)
        in case dropLoop drp nsets repScheme 0 top1 [] of
             None \<Rightarrow> None
           | Some rows \<Rightarrow>
               Some \<lparr>topSingle = Some top1, sets_drop = rows,
                     tonnage_drop =
                       round2 (top1 * Fin 1 + foldl (\<lambda>a b. a + rowTonnage b) (Fin 0) rows)\<rparr>)"

section \<open>The rungs of the ladder loop in closed form\<close>

text \<open>
  The values of \<open>w\<close> and \<open>reps\<close> at the start of iteration \<open>k\<close> of the ladder loop, the
  row that iteration pushes, and the loop condition there.
\<close>

definition rungWeight :: "number \<Rightarrow> number \<Rightarrow> nat \<Rightarrow> number" where
  "rungWeight increment w k = ((\<lambda>v. v + increment) ^^ k) w"

definition rungReps :: "number \<Rightarrow> nat \<Rightarrow> number" where
  "rungReps r k = ((\<lambda>v. v - Fin 1) ^^ k) r"

definition rung :: "number \<Rightarrow> number \<Rightarrow> number \<Rightarrow> nat \<Rightarrow> row" where
  "rung increment r w k =
     \<lparr>weight = roundToNearest2point5 (rungWeight increment w k), reps = rungReps r k,
      external = None\<rparr>"

definition loopCond :: "number \<Rightarrow> number \<Rightarrow> number \<Rightarrow> number \<Rightarrow> nat \<Rightarrow> nat \<Rightarrow> bool" where
  "loopCond targetTop increment r w guard k =
     (rungReps r k \<ge> Fin 1 \<and> rungWeight increment w k \<le> targetTop + Fin (1 / 1000000)
      \<and> guard + k < 400)"

text \<open>
  The running weight of the fixed-drop loop after \<open>k\<close> subtractions of \<open>drop\<close>, and the
  row pushed by the iteration that starts at index \<open>i + k\<close>.
\<close>

definition dropW :: "number \<Rightarrow> number \<Rightarrow> nat \<Rightarrow> number" where
  "dropW drp w k = ((\<lambda>v. fsub v drp) ^^ k) w"

definition dropRow :: "number \<Rightarrow> number list \<Rightarrow> nat \<Rightarrow> number \<Rightarrow> nat \<Rightarrow> drop_row" where
  "dropRow drp repScheme i w k =
     \<lparr>weight_drop = roundToNearest2point5 (dropW drp w (Suc k)),
      reps_drop = schemeReps repScheme (i + k), note_drop = drp\<rparr>"

text \<open>\<open>chain drp w vs\<close>: the list \<open>vs\<close> holds the successive running weights after \<open>w\<close>.\<close>

fun chain :: "number \<Rightarrow> number \<Rightarrow> number list \<Rightarrow> bool" where
  "chain drp w [] = True"
| "chain drp w (v # vs) = (fsub w drp = v \<and> chain drp v vs)"

text \<open>
  The parts of \<open>ladderPlan\<close> by name: the final single, the \<open>external\<close> annotation of a
  row, and the rows the loop returns for the start point of the arguments.
\<close>

definition single :: "number \<Rightarrow> row" where
  "single targetTop = \<lparr>weight = roundToNearest2point5 targetTop, reps = Fin 1, external = None\<rparr>"

definition withExternal :: "bool \<Rightarrow> number \<Rightarrow> row \<Rightarrow> row" where
  "withExternal isPullup bodyweight s =
     (if isPullup then s\<lparr>external := Some (round2 (weight s - bodyweight))\<rparr> else s)"

definition loopRows :: "number \<Rightarrow> number \<Rightarrow> number \<Rightarrow> bool \<Rightarrow> row list" where
  "loopRows dailyMax increment startRepCap isPullup =
     fst (ladderLoop dailyMax increment []
            (fst (startPoint dailyMax increment startRepCap isPullup))
            (snd (startPoint dailyMax increment startRepCap isPullup)) 0)"

section \<open>Arithmetic of numbers\<close>

lemma Fin_minus [simp]: "Fin a - Fin b = Fin (a - b)"
  by (simp add: minus_number_def)

lemma number_less_simps [simp]:
  "\<not> PInf < y" "\<not> x < NInf" "\<not> NaN < y" "\<not> x < NaN" for x y :: number
  by (cases y; simp)+ (cases x; simp)+

lemma number_le_simps [simp]:
  "\<not> NaN \<le> y" "\<not> x \<le> NaN" for x y :: number
  by (cases y; simp) (cases x; simp)

lemma number_plus_NaN [simp]: "NaN + y = NaN" "x + NaN = NaN" for x y :: number
  by (cases y; simp) (cases x; simp)

lemma roundTo_Fin: "roundToNearest2point5 (Fin x) = Fin (of_int (round (x / 2.5)) * 2.5)"
  by (simp add: roundToNearest2point5_def)

lemma roundTo_PInf [simp]: "roundToNearest2point5 PInf = PInf"
  by (simp add: roundToNearest2point5_def)

lemma roundTo_NInf [simp]: "roundToNearest2point5 NInf = NInf"
  by (simp add: roundToNearest2point5_def)

lemma roundTo_NaN [simp]: "roundToNearest2point5 NaN = NaN"
  by (simp add: roundToNearest2point5_def)

lemma roundTo_mono:
  "x \<le> y \<Longrightarrow> roundToNearest2point5 (Fin x) \<le> roundToNearest2point5 (Fin y)"
proof -
  assume "x \<le> y"
  then have "round (x / 2.5) \<le> round (y / 2.5)"
    by (intro round_mono) (simp add: divide_right_mono)
  then show ?thesis
    by (simp add: roundTo_Fin)
qed

lemma round_add_one: "round (x + 1) = round x + (1::int)" for x :: real
  unfolding round_def by (simp add: add.commute add.left_commute) linarith

lemma roundTo_strict:
  assumes "x + 2.5 \<le> y"
  shows "roundToNearest2point5 (Fin x) < roundToNearest2point5 (Fin y)"
proof -
  have "x / 2.5 + 1 \<le> y / 2.5"
    using assms by (simp add: field_simps)
  then have "round (x / 2.5 + 1) \<le> round (y / 2.5)"
    by (rule round_mono)
  then have "round (x / 2.5) < round (y / 2.5)"
    by (simp add: round_add_one)
  then show ?thesis
    by (simp add: roundTo_Fin)
qed

section \<open>The ladder loop unfolded\<close>

lemma rungWeight_0 [simp]: "rungWeight inc w 0 = w"
  by (simp add: rungWeight_def)

lemma rungReps_0 [simp]: "rungReps r 0 = r"
  by (simp add: rungReps_def)

lemma rungWeight_Suc: "rungWeight inc w (Suc k) = rungWeight inc (w + inc) k"
  using funpow_swap1 [of "\<lambda>v. v + inc" k w] by (simp add: rungWeight_def)

lemma rungReps_Suc: "rungReps r (Suc k) = rungReps (r - Fin 1) k"
  using funpow_swap1 [of "\<lambda>v. v - Fin 1" k r] by (simp add: rungReps_def)

lemma rung_Suc: "rung inc r w (Suc k) = rung inc (r - Fin 1) (w + inc) k"
  by (simp add: rung_def rungWeight_Suc rungReps_Suc)

lemma loopCond_Suc:
  "loopCond T inc r w g (Suc k) = loopCond T inc (r - Fin 1) (w + inc) (Suc g) k"
  by (simp add: loopCond_def rungWeight_Suc rungReps_Suc)

lemma loopCond_0:
  "loopCond T inc r w g 0 = (r \<ge> Fin 1 \<and> w \<le> T + Fin (1 / 1000000) \<and> g < 400)"
  by (simp add: loopCond_def)

text \<open>
  The loop runs \<open>n\<close> times, where \<open>n\<close> is the first iteration at which its condition
  fails, and pushes the rungs \<open>0, \<dots>, n - 1\<close>.
\<close>

lemma ladderLoop_unfold:
  "\<exists>n. ladderLoop T inc rows r w g
         = (rows @ map (rung inc r w) [0..<n], rungReps r n, rungWeight inc w n, g + n)
       \<and> (\<forall>k<n. loopCond T inc r w g k) \<and> \<not> loopCond T inc r w g n"
proof (induction T inc rows r w g rule: ladderLoop.induct)
  case (1 T inc rows r w g)
  show ?case
  proof (cases "loopCond T inc r w g 0")
    case False
    then have "ladderLoop T inc rows r w g = (rows, r, w, g)"
      by (subst ladderLoop.simps) (auto simp: loopCond_0)
    with False show ?thesis
      by (intro exI[of _ 0]) simp
  next
    case True
    let ?row = "\<lparr>weight = roundToNearest2point5 w, reps = r, external = None\<rparr>"
    from True have c: "r \<ge> Fin 1 \<and> w \<le> T + Fin (1 / 1000000) \<and> g < 400"
      by (simp add: loopCond_0)
    then obtain n where
      eq: "ladderLoop T inc (rows @ [?row]) (r - Fin 1) (w + inc) (Suc g)
           = ((rows @ [?row]) @ map (rung inc (r - Fin 1) (w + inc)) [0..<n],
              rungReps (r - Fin 1) n, rungWeight inc (w + inc) n, Suc g + n)"
      and all: "\<forall>k<n. loopCond T inc (r - Fin 1) (w + inc) (Suc g) k"
      and stop: "\<not> loopCond T inc (r - Fin 1) (w + inc) (Suc g) n"
      using "1.IH" by blast
    have step: "ladderLoop T inc rows r w g
                = ladderLoop T inc (rows @ [?row]) (r - Fin 1) (w + inc) (Suc g)"
      using c by (subst ladderLoop.simps) simp
    have row0: "?row = rung inc r w 0"
      by (simp add: rung_def)
    have "map (rung inc r w) [0..<Suc n] = ?row # map (rung inc (r - Fin 1) (w + inc)) [0..<n]"
      by (simp only: map_upt_Suc row0 rung_Suc)
    then have "ladderLoop T inc rows r w g
                = (rows @ map (rung inc r w) [0..<Suc n],
                   rungReps r (Suc n), rungWeight inc w (Suc n), g + Suc n)"
      using step eq by (simp add: rungReps_Suc rungWeight_Suc)
    moreover have "\<forall>k<Suc n. loopCond T inc r w g k"
      using True all by (auto simp: less_Suc_eq_0_disj loopCond_Suc)
    moreover have "\<not> loopCond T inc r w g (Suc n)"
      using stop by (simp add: loopCond_Suc)
    ultimately show ?thesis by blast
  qed
qed

lemma rungWeight_Fin: "rungWeight (Fin i) (Fin x) k = Fin (x + real k * i)"
  by (induction k arbitrary: x) (simp_all add: rungWeight_Suc algebra_simps)

lemma rungReps_Fin: "rungReps (Fin y) k = Fin (y - real k)"
  by (induction k arbitrary: y) (simp_all add: rungReps_Suc algebra_simps)

section \<open>The final single of a barbell ladder\<close>

text \<open>
  Claim C1.  The claim: a barbell ladder for a finite daily max above the bar and a
  positive finite increment ends with a row of one rep within 2.5 of the daily max.
  The code does not keep it: \<open>ladderPlan({dailyMax: 22.5, increment: 1})\<close> rounds the
  start reps \<open>3.5\<close> up to \<open>4\<close>, the loop stops after the rung of weight \<open>22\<close> and two
  reps, whose rounded weight \<open>22.5\<close> is not below the daily max, so no final single is
  appended and the ladder ends with two reps.
\<close>

theorem ladderPlan_barbell_ends_with_two_reps:
  "last (sets (ladderPlan (Fin 22.5) (Fin 1) (Fin 12) False (Fin 80)))
     = \<lparr>weight = Fin 22.5, reps = Fin 2, external = None\<rparr>"
  by code_simp

theorem ladderPlan_barbell_ends_with_two_reps_witness:
  "reps (last (sets (ladderPlan (Fin 22.5) (Fin 1) (Fin 12) False (Fin 80)))) = Fin 2"
  using ladderPlan_barbell_ends_with_two_reps by simp

section \<open>Empty plans\<close>

text \<open>
  Claim C2.  The claim: a planner called with a non-finite \<open>dailyMax\<close> or \<open>increment\<close>
  (NaN or an infinity) returns its empty plan.  The guards are \<^verbatim>\<open>!dailyMax\<close> and
  \<^verbatim>\<open>!increment\<close>, which hold of NaN and of zero and not of an infinity: with an
  infinite \<open>dailyMax\<close> or \<open>increment\<close> no planner returns its empty plan.
\<close>

theorem planners_not_empty_on_Infinity:
  "ladderPlan PInf (Fin 10) (Fin 12) False (Fin 80)
     \<noteq> \<lparr>sets = [], tonnage = Fin 0, start = None\<rparr>
   \<and> ladderPlan (Fin 100) PInf (Fin 12) False (Fin 80)
     \<noteq> \<lparr>sets = [], tonnage = Fin 0, start = None\<rparr>
   \<and> rpPercentPlan PInf \<noteq> \<lparr>sets_pct = [], tonnage_pct = Fin 0, heavyReps = Fin 0\<rparr>
   \<and> rpFixedDropPlan NInf (Fin 10) (Fin 4) [Fin 3, Fin 5, Fin 7, Fin 9]
     \<noteq> Some \<lparr>topSingle = None, sets_drop = [], tonnage_drop = Fin 0\<rparr>"
  by code_simp

text \<open>
  Claim C2, amended.  When \<open>dailyMax\<close> is NaN, or for \<open>ladderPlan\<close> when \<open>increment\<close> is
  NaN, the planner returns its empty plan, whatever the other arguments are.  The
  planners are total functions: no call raises.
\<close>

theorem planners_empty_on_NaN:
  "ladderPlan NaN increment startRepCap isPullup bodyweight
     = \<lparr>sets = [], tonnage = Fin 0, start = None\<rparr>
   \<and> ladderPlan dailyMax NaN startRepCap isPullup bodyweight
     = \<lparr>sets = [], tonnage = Fin 0, start = None\<rparr>
   \<and> rpPercentPlan NaN = \<lparr>sets_pct = [], tonnage_pct = Fin 0, heavyReps = Fin 0\<rparr>
   \<and> rpFixedDropPlan NaN drp nsets repScheme
     = Some \<lparr>topSingle = None, sets_drop = [], tonnage_drop = Fin 0\<rparr>"
  by (simp add: ladderPlan_def rpPercentPlan_def rpFixedDropPlan_def)

theorem planners_empty_on_NaN_witness:
  "ladderPlan NaN (Fin 10) (Fin 12) False (Fin 80)
     = \<lparr>sets = [], tonnage = Fin 0, start = None\<rparr>
   \<and> ladderPlan (Fin 160) NaN (Fin 12) False (Fin 80)
     = \<lparr>sets = [], tonnage = Fin 0, start = None\<rparr>
   \<and> rpPercentPlan NaN = \<lparr>sets_pct = [], tonnage_pct = Fin 0, heavyReps = Fin 0\<rparr>
   \<and> rpFixedDropPlan NaN (Fin 10) (Fin 4) [Fin 3, Fin 5, Fin 7, Fin 9]
     = Some \<lparr>topSingle = None, sets_drop = [], tonnage_drop = Fin 0\<rparr>"
  by (rule planners_empty_on_NaN)

section \<open>The percent plan\<close>

lemma pct_weights:
  "truthy dailyMax \<Longrightarrow> map weight_pct (sets_pct (rpPercentPlan dailyMax))
     = map (\<lambda>p. roundToNearest2point5 (Fin p * dailyMax)) [0.9, 0.85, 0.8, 0.75, 0.7]"
  by (simp add: rpPercentPlan_def scheme_def)

text \<open>
  Claim C6.  The claim: for a positive finite \<open>dailyMax\<close> the percent plan has five rows
  of strictly decreasing weight.  The weights are rounded to multiples of 2.5, so
  for a small \<open>dailyMax\<close> neighbouring rows get the same weight: for \<open>dailyMax = 10\<close>
  the weights are 10, 7.5, 7.5, 7.5, 7.5.
\<close>

theorem rpPercentPlan_weights_not_strictly_decreasing:
  "\<not> sorted_wrt (\<lambda>a b. b < a) (map weight_pct (sets_pct (rpPercentPlan (Fin 10))))"
  by code_simp

text \<open>
  Claim C6, amended.  For a positive finite \<open>dailyMax\<close> the percent plan has exactly five
  rows, whose weights never increase from one row to the next; they decrease strictly
  when \<open>dailyMax\<close> is at least 50, where neighbouring percentages are 2.5 apart or more.
\<close>

theorem rpPercentPlan_five_rows_nonincreasing:
  assumes "0 < d"
  shows "length (sets_pct (rpPercentPlan (Fin d))) = 5
       \<and> sorted_wrt (\<lambda>a b. b \<le> a) (map weight_pct (sets_pct (rpPercentPlan (Fin d))))
       \<and> (50 \<le> d \<longrightarrow>
            sorted_wrt (\<lambda>a b. b < a) (map weight_pct (sets_pct (rpPercentPlan (Fin d)))))"
proof -
  have t: "truthy (Fin d)" using assms by simp
  have len: "length (sets_pct (rpPercentPlan (Fin d))) = 5"
    using t by (simp add: rpPercentPlan_def scheme_def)
  have mono: "sorted_wrt (\<lambda>a b. b \<le> a) (map weight_pct (sets_pct (rpPercentPlan (Fin d))))"
    unfolding pct_weights [OF t] using assms by (simp add: roundTo_mono)
  have strict: "sorted_wrt (\<lambda>a b. b < a) (map weight_pct (sets_pct (rpPercentPlan (Fin d))))"
    if "50 \<le> d"
    unfolding pct_weights [OF t] using that by (simp add: roundTo_strict)
  from len mono strict show ?thesis by blast
qed

theorem rpPercentPlan_five_rows_nonincreasing_witness:
  "length (sets_pct (rpPercentPlan (Fin 100))) = 5
   \<and> sorted_wrt (\<lambda>a b. b < a) (map weight_pct (sets_pct (rpPercentPlan (Fin 100))))"
  using rpPercentPlan_five_rows_nonincreasing [of 100] by simp

section \<open>The fixed-drop loop unfolded\<close>

lemma dropW_0 [simp]: "dropW drp w 0 = w"
  by (simp add: dropW_def)

lemma dropW_Suc: "dropW drp w (Suc k) = dropW drp (fsub w drp) k"
  using funpow_swap1 [of "\<lambda>v. fsub v drp" k w] by (simp add: dropW_def)

lemma dropRow_Suc: "dropRow drp rs i w (Suc k) = dropRow drp rs (Suc i) (fsub w drp) k"
  by (simp add: dropRow_def dropW_Suc)

lemma dropLoop_stop1: "\<not> Fin (real i) < nsets \<Longrightarrow> dropLoop drp nsets rs i w rows = Some rows"
  by (subst dropLoop.simps) simp

lemma dropLoop_stop2:
  "Fin (real i) < nsets \<Longrightarrow> fsub w drp \<le> Fin 0 \<Longrightarrow> dropLoop drp nsets rs i w rows = Some rows"
  by (subst dropLoop.simps) simp

lemma dropLoop_step:
  "Fin (real i) < nsets \<Longrightarrow> \<not> fsub w drp \<le> Fin 0 \<Longrightarrow>
   dropLoop drp nsets rs i w rows
     = dropLoop drp nsets rs (Suc i) (fsub w drp) (rows @ [dropRow drp rs i w 0])"
  by (subst dropLoop.simps) (simp add: dropRow_def dropW_Suc Let_def)

lemma dropLoop_unfold:
  assumes "nsets \<noteq> PInf"
  shows "\<exists>m. dropLoop drp nsets rs i w rows = Some (rows @ map (dropRow drp rs i w) [0..<m])
           \<and> (\<forall>k<m. Fin (real (i + k)) < nsets \<and> \<not> dropW drp w (Suc k) \<le> Fin 0)
           \<and> (\<not> Fin (real (i + m)) < nsets \<or> dropW drp w (Suc m) \<le> Fin 0)"
proof (cases "\<exists>s. nsets = Fin s")
  case False
  with assms have "\<not> Fin (real i) < nsets"
    by (cases nsets) simp_all
  then show ?thesis
    by (intro exI[of _ 0]) (simp add: dropLoop_stop1)
next
  case True
  then obtain s where s: "nsets = Fin s" by blast
  show ?thesis
  proof (induction "nat \<lceil>s\<rceil> - i" arbitrary: i w rows rule: less_induct)
    case less
    show ?case
    proof (cases "Fin (real i) < nsets")
      case False
      then show ?thesis
        by (intro exI[of _ 0]) (simp add: dropLoop_stop1)
    next
      case lt: True
      show ?thesis
      proof (cases "fsub w drp \<le> Fin 0")
        case True
        with lt show ?thesis
          by (intro exI[of _ 0]) (simp add: dropLoop_stop2 dropW_Suc)
      next
        case False
        from lt s have "real i < s" by simp
        then have "i < nat \<lceil>s\<rceil>" by linarith
        then have "nat \<lceil>s\<rceil> - Suc i < nat \<lceil>s\<rceil> - i" by simp
        from less [OF this] obtain m where
          eq: "dropLoop drp nsets rs (Suc i) (fsub w drp) (rows @ [dropRow drp rs i w 0])
               = Some ((rows @ [dropRow drp rs i w 0]) @ map (dropRow drp rs (Suc i) (fsub w drp)) [0..<m])"
          and all: "\<forall>k<m. Fin (real (Suc i + k)) < nsets \<and> \<not> dropW drp (fsub w drp) (Suc k) \<le> Fin 0"
          and stop: "\<not> Fin (real (Suc i + m)) < nsets \<or> dropW drp (fsub w drp) (Suc m) \<le> Fin 0"
          by blast
        have "map (dropRow drp rs i w) [0..<Suc m]
               = dropRow drp rs i w 0 # map (dropRow drp rs (Suc i) (fsub w drp)) [0..<m]"
          by (simp only: map_upt_Suc dropRow_Suc)
        then have "dropLoop drp nsets rs i w rows = Some (rows @ map (dropRow drp rs i w) [0..<Suc m])"
          using dropLoop_step [OF lt False] eq by simp
        moreover have "\<forall>k<Suc m. Fin (real (i + k)) < nsets \<and> \<not> dropW drp w (Suc k) \<le> Fin 0"
          using lt False all
          by (auto simp: less_Suc_eq_0_disj dropW_Suc simp del: of_nat_Suc of_nat_add)
        moreover have "\<not> Fin (real (i + Suc m)) < nsets \<or> dropW drp w (Suc (Suc m)) \<le> Fin 0"
          using stop by (simp add: dropW_Suc del: of_nat_Suc of_nat_add)
        ultimately show ?thesis by blast
      qed
    qed
  qed
qed



section \<open>Rounding to a double, evaluated\<close>

text \<open>
  \<open>binExp\<close> is the binary exponent; and \<open>toDouble x\<close> is \<open>m / 2^k\<close> when \<open>x * 2^k\<close> lies
  between \<open>2^52\<close> and \<open>2^53\<close> and rounds to the integer \<open>m\<close>.  The two lemmas \<open>fsub_small\<close>
  and \<open>fsub_tie\<close> evaluate one subtraction of doubles from \<open>k\<close> and \<open>m\<close>.
\<close>

lemma bits_bounds: "0 < n \<Longrightarrow> 2 ^ (bits n - 1) \<le> n \<and> n < 2 ^ bits n"
proof (induction n rule: bits.induct)
  case (1 n)
  show ?case
  proof (cases "n div 2 = 0")
    case True
    with "1.prems" have "n = 1" by (simp add: div_eq_0_iff)
    then show ?thesis by (simp add: bits.simps)
  next
    case False
    then have pos: "0 < n div 2" by simp
    let ?b = "bits (n div 2)"
    from "1.IH" "1.prems" pos have ih: "2 ^ (?b - 1) \<le> n div 2" "n div 2 < 2 ^ ?b"
      by simp_all
    have b1: "1 \<le> ?b" using pos by (subst bits.simps) simp
    have eq: "bits n = Suc ?b" using "1.prems" by (subst bits.simps) simp
    have "2 * 2 ^ (?b - 1) \<le> n" using ih(1) by linarith
    moreover have "2 * 2 ^ (?b - 1) = (2::nat) ^ ?b"
      using b1 by (cases ?b) simp_all
    moreover have "n < 2 * 2 ^ ?b" using ih(2) by linarith
    ultimately show ?thesis by (simp add: eq)
  qed
qed

lemma bits_eq:
  assumes "2 ^ k \<le> n" and "n < 2 ^ Suc k"
  shows "bits n = Suc k"
proof -
  have "(0::nat) < 2 ^ k" by simp
  with assms(1) have pos: "0 < n" by linarith
  from bits_bounds [OF pos] have b: "2 ^ (bits n - 1) \<le> n" "n < 2 ^ bits n" by simp_all
  from assms(1) b(2) have "(2::nat) ^ k < 2 ^ bits n" by linarith
  then have "k < bits n" by simp
  moreover from b(1) assms(2) have "(2::nat) ^ (bits n - 1) < 2 ^ Suc k" by linarith
  with power_less_imp_less_exp [of "2::nat" "bits n - 1" "Suc k"]
  have "bits n - 1 < Suc k" by simp
  ultimately show ?thesis by linarith
qed

lemma binExp_ge_one:
  assumes "2 ^ n \<le> a" and "a < 2 ^ Suc n"
  shows "binExp a = int n"
proof -
  have a1: "1 \<le> a" using assms(1) one_le_power [of "2::real" n] by linarith
  have "(2::int) ^ n \<le> \<lfloor>a\<rfloor>"
    using assms(1) by (simp add: le_floor_iff)
  then have lo: "2 ^ n \<le> nat \<lfloor>a\<rfloor>"
    by (simp add: le_nat_iff)
  have "\<lfloor>a\<rfloor> < 2 ^ Suc n"
    using assms(2) by (simp add: floor_less_iff)
  then have hi: "nat \<lfloor>a\<rfloor> < 2 ^ Suc n"
    by (metis nat_less_iff of_nat_numeral of_nat_power zero_le_floor a1 order_trans zero_le_one)
  from bits_eq [OF lo hi] show ?thesis
    using a1 by (simp add: binExp_def)
qed


lemma binExp_lt_one:
  assumes "1 / 2 ^ Suc n \<le> a" and "a < 1 / 2 ^ n"
  shows "binExp a = - int (Suc n)"
proof -
  have "(0::real) < 1 / 2 ^ Suc n" by simp
  with assms(1) have a0: "0 < a" by linarith
  have "(1::real) / 2 ^ n \<le> 1" by simp
  with assms(2) have a1: "\<not> 1 \<le> a" by linarith
  have yhi: "1 / a \<le> 2 ^ Suc n"
    using assms(1) a0 by (simp add: field_simps)
  have ylo: "2 ^ n < 1 / a"
    using assms(2) a0 by (simp add: field_simps)
  define M where "M = \<lceil>1 / a\<rceil>"
  have "M \<le> 2 ^ Suc n"
    using yhi by (simp add: M_def ceiling_le_iff)
  moreover have "2 ^ n < M"
    using ylo by (simp add: M_def less_ceiling_iff)
  moreover have "(1::int) \<le> 2 ^ n" by simp
  ultimately have m: "0 \<le> M - 1" "int (2 ^ n) \<le> M - 1" "M - 1 < int (2 ^ Suc n)"
    by simp_all
  have lo: "2 ^ n \<le> nat (\<lceil>1 / a\<rceil> - 1)"
    using m(1,2) unfolding M_def by (simp only: le_nat_iff)
  have hi: "nat (\<lceil>1 / a\<rceil> - 1) < 2 ^ Suc n"
    using m(1,3) unfolding M_def by (simp only: nat_less_iff)
  from bits_eq [OF lo hi] show ?thesis
    using a1 by (simp add: binExp_def)
qed

lemma roundHalfEven_near:
  assumes "\<bar>t - of_int m\<bar> < 1 / 2"
  shows "roundHalfEven t = m"
proof (cases "of_int m \<le> t")
  case True
  with assms have "\<lfloor>t\<rfloor> = m" by (intro floor_unique) linarith+
  with True assms show ?thesis by (simp add: roundHalfEven_def Let_def)
next
  case False
  have d: "real_of_int (m - 1) = of_int m - 1" by simp
  have "of_int (m - 1) \<le> t" "t < of_int (m - 1) + 1"
    using assms False unfolding d by linarith+
  then have fl: "\<lfloor>t\<rfloor> = m - 1" by (rule floor_unique)
  have "1 / 2 < t - of_int (m - 1)" using assms unfolding d by linarith
  then show ?thesis using fl by (simp add: roundHalfEven_def Let_def)
qed

lemma roundHalfEven_tie:
  assumes "t = of_int n + 1 / 2"
  shows "roundHalfEven t = (if even n then n else n + 1)"
proof -
  have "of_int n \<le> t" "t < of_int n + 1"
    using assms by simp_all
  then have "\<lfloor>t\<rfloor> = n" by (rule floor_unique)
  then show ?thesis
    using assms by (simp add: roundHalfEven_def Let_def)
qed

lemma roundHalfEven_le: "of_int (roundHalfEven t) \<le> t + 1"
proof -
  have "of_int \<lfloor>t\<rfloor> \<le> t" by simp
  then show ?thesis
    by (simp add: roundHalfEven_def Let_def) linarith
qed

lemma toDouble_round:
  assumes lo: "2 ^ 52 \<le> x * 2 ^ k" and hi: "x * 2 ^ k < 2 ^ 53" and k: "k \<le> 1074"
    and r: "roundHalfEven (x * 2 ^ k) = m"
  shows "toDouble x = Fin (of_int m / 2 ^ k)"
proof -
  have p: "(0::real) < 2 ^ k" by simp
  have x0: "0 < x"
  proof (rule ccontr)
    assume "\<not> 0 < x"
    then have "x * 2 ^ k \<le> 0" by (simp add: mult_le_0_iff)
    moreover have "(0::real) < 2 ^ 52" by simp
    ultimately show False using lo by linarith
  qed
  have e: "binExp x = 52 - int k"
  proof (cases "k \<le> 52")
    case True
    then have split: "(2::real) ^ 52 = 2 ^ (52 - k) * 2 ^ k" "(2::real) ^ 53 = 2 ^ Suc (52 - k) * 2 ^ k"
      by (simp_all add: power_add [symmetric] del: power_Suc)
    from lo hi have "2 ^ (52 - k) \<le> x" "x < 2 ^ Suc (52 - k)"
      unfolding split using p by (simp_all del: power_Suc)
    from binExp_ge_one [OF this] True show ?thesis by simp
  next
    case False
    define n where "n = k - 53"
    have n: "k = 53 + n" using False by (simp add: n_def)
    have k1: "(2::real) ^ k = 2 ^ 52 * 2 ^ Suc n" and k2: "(2::real) ^ k = 2 ^ 53 * 2 ^ n"
      by (simp_all add: n power_add)
    have "1 / 2 ^ Suc n \<le> x"
      using lo unfolding k1 by (simp add: field_simps del: power_Suc)
    moreover have "x < 1 / 2 ^ n"
      using hi unfolding k2 by (simp add: field_simps del: power_Suc)
    ultimately have "1 / 2 ^ Suc n \<le> x" "x < 1 / 2 ^ n" .
    from binExp_lt_one [OF this] n show ?thesis by simp
  qed
  have ulp: "pow2 (max (binExp x) (- 1022) - 52) = 1 / 2 ^ k"
    using k by (simp add: e pow2_def)
  have "of_int m \<le> x * 2 ^ k + 1"
    using roundHalfEven_le [of "x * 2 ^ k"] by (simp add: r)
  with hi have m54: "of_int m < (2::real) ^ 54" by simp
  have ge1: "(1::real) \<le> 2 ^ k" by simp
  have lt: "of_int m / 2 ^ k < (2::real) ^ 54"
  proof (cases "0 \<le> (of_int m :: real)")
    case True
    then have "of_int m / 2 ^ k \<le> (of_int m :: real) / 1"
      using ge1 by (intro divide_left_mono) simp_all
    with m54 show ?thesis by simp
  next
    case False
    then have "(of_int m :: real) / 2 ^ k \<le> 0"
      by (intro divide_nonpos_pos) simp_all
    moreover have "(0::real) < 2 ^ 54" by simp
    ultimately show ?thesis by linarith
  qed
  have "(2::real) ^ 54 \<le> 2 ^ 1024"
    by (rule power_increasing) simp_all
  with lt have small: "\<not> (2::real) ^ 1024 \<le> of_int m / 2 ^ k" by linarith
  show ?thesis
    using x0 small r by (simp add: toDouble_def Let_def ulp)
qed

lemma toDouble_small:
  assumes "2 ^ 52 \<le> x * 2 ^ k" and "x * 2 ^ k < 2 ^ 53" and "k \<le> 1074"
    and "\<bar>x * 2 ^ k - of_int m\<bar> < 1 / 2" and "y = of_int m / 2 ^ k"
  shows "toDouble x = Fin y"
  using toDouble_round [OF assms(1-3) roundHalfEven_near [OF assms(4)]] assms(5)
  by simp

lemma fsub_small:
  assumes "2 ^ 52 \<le> (a - b) * 2 ^ k" and "(a - b) * 2 ^ k < 2 ^ 53" and "k \<le> 1074"
    and "\<bar>(a - b) * 2 ^ k - of_int m\<bar> < 1 / 2" and "y = of_int m / 2 ^ k"
  shows "fsub (Fin a) (Fin b) = Fin y"
  using toDouble_round [OF assms(1-3) roundHalfEven_near [OF assms(4)]] assms(5)
  by (simp add: fsub_def)

lemma fsub_tie:
  assumes "2 ^ 52 \<le> (a - b) * 2 ^ k" and "(a - b) * 2 ^ k < 2 ^ 53" and "k \<le> 1074"
    and "(a - b) * 2 ^ k = of_int n + 1 / 2"
    and "y = of_int (if even n then n else n + 1) / 2 ^ k"
  shows "fsub (Fin a) (Fin b) = Fin y"
  using toDouble_round [OF assms(1-3) roundHalfEven_tie [OF assms(4)]] assms(5)
  by (simp add: fsub_def)

text \<open>
  A double \<open>y\<close> from 1 to \<open>2^53\<close> is a multiple of a power of two that divides 1, and so is
  \<open>y - 1\<close>, with a mantissa of at most 53 bits: the subtraction \<^verbatim>\<open>y - 1\<close> of doubles is
  exact there.
\<close>

lemma binExp_bounds:
  assumes "1 \<le> a"
  shows "\<exists>n. binExp a = int n \<and> 2 ^ n \<le> a \<and> a < 2 ^ Suc n"
proof -
  define N where "N = nat \<lfloor>a\<rfloor>"
  have fl: "1 \<le> \<lfloor>a\<rfloor>" using assms by (simp add: le_floor_iff)
  then have pos: "0 < N" by (simp add: N_def)
  from bits_bounds [OF pos] have b: "2 ^ (bits N - 1) \<le> N" "N < 2 ^ bits N" by simp_all
  have b1: "1 \<le> bits N" using pos by (subst bits.simps) simp
  have Na: "real N \<le> a" using fl by (simp add: N_def)
  have aN: "a < real N + 1" using fl by (simp add: N_def)
  have "real (2 ^ (bits N - 1)) \<le> real N" using b(1) by (simp only: of_nat_le_iff)
  then have "(2::real) ^ (bits N - 1) \<le> real N" by simp
  with Na have lo: "2 ^ (bits N - 1) \<le> a" by linarith
  have "Suc N \<le> 2 ^ bits N" using b(2) by simp
  then have "real (Suc N) \<le> real (2 ^ bits N)" by (simp only: of_nat_le_iff)
  then have "real N + 1 \<le> 2 ^ bits N" by simp
  moreover have "Suc (bits N - 1) = bits N" using b1 by simp
  ultimately have hi: "a < 2 ^ Suc (bits N - 1)" using aN by simp
  have "binExp a = int (bits N - 1)"
    using assms b1 by (simp add: binExp_def N_def)
  with lo hi show ?thesis by blast
qed

lemma toDouble_grid:
  assumes d: "toDouble y = Fin y" and y1: "1 \<le> y" and y53: "y < 2 ^ 53"
  shows "\<exists>j N. j \<le> 52 \<and> y * 2 ^ j = of_int N \<and> y * 2 ^ j < 2 ^ 53"
proof -
  from binExp_bounds [OF y1] obtain n where
    n: "binExp y = int n" "2 ^ n \<le> y" "y < 2 ^ Suc n" by blast
  have "(2::real) ^ n < 2 ^ 53" using n(2) y53 by linarith
  with power_less_imp_less_exp [of "2::real" n 53] have n52: "n \<le> 52" by simp
  have ulp: "pow2 (max (binExp y) (- 1022) - 52) = 1 / 2 ^ (52 - n)"
  proof (cases "n = 52")
    case True
    then show ?thesis by (simp add: n(1) pow2_def)
  next
    case False
    with n52 have "n < 52" by simp
    then have "nat (52 - int n) = 52 - n" by simp
    with \<open>n < 52\<close> show ?thesis by (simp add: n(1) pow2_def)
  qed
  define N where "N = roundHalfEven (\<bar>y\<bar> / (1 / 2 ^ (52 - n)))"
  have "y = of_int N * (1 / 2 ^ (52 - n))"
    using d y1 by (simp add: toDouble_def Let_def ulp N_def split: if_splits)
  then have "y * 2 ^ (52 - n) = of_int N" by (simp add: field_simps)
  moreover have "y * 2 ^ (52 - n) < 2 ^ 53"
  proof -
    have "y * 2 ^ (52 - n) < 2 ^ Suc n * 2 ^ (52 - n)"
      using n(3) by (intro mult_strict_right_mono) simp_all
    also have "(2::real) ^ Suc n * 2 ^ (52 - n) = 2 ^ 53"
      using n52 by (simp add: power_add [symmetric] del: power_Suc)
    finally show ?thesis .
  qed
  ultimately show ?thesis by (intro exI[of _ "52 - n"] exI[of _ N]) simp
qed

lemma toDouble_exact:
  assumes z: "0 < z" and int: "z * 2 ^ j = of_int M" and lt: "z * 2 ^ j < 2 ^ 53" and j: "j \<le> 1022"
  shows "toDouble z = Fin z"
proof -
  have M1: "1 \<le> M"
  proof -
    have "0 < z * 2 ^ j" using z by simp
    then have "(0::real) < of_int M" by (simp only: int)
    then show ?thesis by simp
  qed
  have ex: "2 ^ 52 \<le> z * 2 ^ (j + 52)"
  proof -
    have "(1::real) \<le> of_int M" using M1 by simp
    then have "1 \<le> z * 2 ^ j" by (simp only: int)
    then have "1 * 2 ^ 52 \<le> z * 2 ^ j * 2 ^ 52" by (intro mult_right_mono) simp_all
    then show ?thesis by (simp add: power_add mult.assoc)
  qed
  define k where "k = (LEAST k. 2 ^ 52 \<le> z * 2 ^ k)"
  have k: "2 ^ 52 \<le> z * 2 ^ k"
    unfolding k_def using ex by (rule LeastI)
  have kle: "k \<le> j + 52"
    unfolding k_def using ex by (rule Least_le)
  have hi: "z * 2 ^ k < 2 ^ 53"
  proof (cases "k \<le> j")
    case True
    then have "(2::real) ^ k \<le> 2 ^ j" by simp
    then have "z * 2 ^ k \<le> z * 2 ^ j" using z by simp
    with lt show ?thesis by linarith
  next
    case False
    then obtain k' where k': "k = Suc k'" by (cases k) simp_all
    from k' have "k' < (LEAST k. 2 ^ 52 \<le> z * 2 ^ k)" by (simp add: k_def)
    then have "\<not> 2 ^ 52 \<le> z * 2 ^ k'" by (rule not_less_Least)
    then have "z * 2 ^ k' < 2 ^ 52" by simp
    then show ?thesis by (simp add: k')
  qed
  have jk: "j \<le> k"
  proof (rule ccontr)
    assume "\<not> j \<le> k"
    then have "Suc k \<le> j" by simp
    then have "(2::real) ^ Suc k \<le> 2 ^ j" by (intro power_increasing) simp_all
    then have "z * 2 ^ Suc k \<le> z * 2 ^ j" using z by (intro mult_left_mono) simp_all
    with lt have "z * 2 ^ Suc k < 2 ^ 53" by linarith
    then have "z * 2 ^ k < 2 ^ 52" by simp
    with k show False by simp
  qed
  then have "z * 2 ^ k = z * 2 ^ j * 2 ^ (k - j)"
    by (simp add: power_add [symmetric] mult.assoc)
  then have m: "z * 2 ^ k = of_int (M * 2 ^ (k - j))"
    by (simp add: int)
  have "k \<le> 1074" using kle j by simp
  from k hi this have "toDouble z = Fin (of_int (M * 2 ^ (k - j)) / 2 ^ k)"
    by (rule toDouble_small [where m = "M * 2 ^ (k - j)"]) (simp_all add: m)
  also have "of_int (M * 2 ^ (k - j)) / 2 ^ k = z"
    unfolding m [symmetric] by simp
  finally show ?thesis .
qed

lemma fsub_one_exact:
  assumes d: "toDouble y = Fin y" and y1: "1 \<le> y" and y53: "y \<le> 2 ^ 53"
  shows "fsub (Fin y) (Fin 1) = Fin (y - 1)"
proof (cases "y = 1 \<or> y = 2 ^ 53")
  case True
  then show ?thesis
  proof
    assume "y = 1"
    then show ?thesis by (simp add: fsub_def toDouble_def)
  next
    assume y: "y = 2 ^ 53"
    have "toDouble (2 ^ 53 - 1) = Fin (2 ^ 53 - 1)"
      by (rule toDouble_small [where k = 0 and m = 9007199254740991]) simp_all
    then show ?thesis by (simp add: fsub_def y)
  qed
next
  case False
  with y1 y53 have y: "1 < y" "y < 2 ^ 53" by simp_all
  from toDouble_grid [OF d y1 y(2)] obtain j N where
    j: "j \<le> 52" and N: "y * 2 ^ j = of_int N" and N53: "y * 2 ^ j < 2 ^ 53" by blast
  have "(y - 1) * 2 ^ j = of_int (N - 2 ^ j)"
    using N by (simp add: algebra_simps)
  moreover have "(y - 1) * 2 ^ j < 2 ^ 53"
  proof -
    have "(0::real) < 2 ^ j" by simp
    moreover have "(y - 1) * 2 ^ j = y * 2 ^ j - 2 ^ j" by (simp add: algebra_simps)
    ultimately show ?thesis using N53 by linarith
  qed
  moreover have "0 < y - 1" using y by simp
  moreover have "j \<le> 1022" using j by simp
  ultimately have "toDouble (y - 1) = Fin (y - 1)"
    by (intro toDouble_exact [where j = j and M = "N - 2 ^ j"])
  then show ?thesis by (simp add: fsub_def)
qed

text \<open>
  When the top single and \<open>drop\<close> are multiples of \<open>2^(-q)\<close> and the top single is below
  \<open>2^(53 - q)\<close>, every running weight above 0 is such a multiple too and no subtraction
  rounds: the running weight is \<open>t - j * drop\<close> as long as that is above 0, and at most 0
  when it is not.
\<close>

lemma pow2_pos: "0 < pow2 k"
  by (simp add: pow2_def)

lemma roundHalfEven_nonneg: "0 \<le> t \<Longrightarrow> 0 \<le> roundHalfEven t"
  by (simp add: roundHalfEven_def Let_def)

lemma toDouble_nonpos:
  assumes "x \<le> 0"
  shows "toDouble x \<le> Fin 0"
proof (cases "x = 0")
  case True
  then show ?thesis by (simp add: toDouble_def)
next
  case False
  with assms have x: "x < 0" by simp
  let ?u = "pow2 (max (binExp (- x)) (- 1022) - 52)"
  have u: "0 < ?u" by (rule pow2_pos)
  have "0 \<le> - (x / ?u)" using u x by (simp add: divide_nonpos_pos)
  then have "0 \<le> roundHalfEven (- (x / ?u))" by (rule roundHalfEven_nonneg)
  then have "0 \<le> of_int (roundHalfEven (- (x / ?u))) * ?u" using u by simp
  then show ?thesis
    using x by (simp add: toDouble_def Let_def)
qed

lemma dropW_step: "dropW drp w (Suc k) = fsub (dropW drp w k) drp"
  by (simp add: dropW_def)

lemma dropW_exact:
  assumes t: "t * 2 ^ q = of_int A" and D: "D * 2 ^ q = of_int P" and lt: "t * 2 ^ q < 2 ^ 53"
    and q: "q \<le> 1022" and D0: "0 < D"
    and pos: "\<forall>i. 1 \<le> i \<and> i \<le> j \<longrightarrow> 0 < t - real i * D"
  shows "dropW (Fin D) (Fin t) j = Fin (t - real j * D)"
  using pos
proof (induction j)
  case 0
  show ?case by simp
next
  case (Suc j)
  then have ih: "dropW (Fin D) (Fin t) j = Fin (t - real j * D)" by simp
  let ?z = "t - real (Suc j) * D"
  from Suc.prems have "1 \<le> Suc j \<and> Suc j \<le> Suc j \<longrightarrow> 0 < ?z" by blast
  then have z: "0 < ?z" by simp
  have "?z * 2 ^ q = t * 2 ^ q - real (Suc j) * (D * 2 ^ q)"
    by (simp add: algebra_simps)
  then have zi: "?z * 2 ^ q = of_int (A - int (Suc j) * P)"
    by (simp only: t D) simp
  have "0 \<le> real (Suc j) * D" using D0 by simp
  then have "?z \<le> t" by linarith
  then have "?z * 2 ^ q \<le> t * 2 ^ q" by (intro mult_right_mono) simp_all
  with lt have "?z * 2 ^ q < 2 ^ 53" by linarith
  from toDouble_exact [OF z zi this q] have "toDouble ?z = Fin ?z" .
  moreover have "t - real j * D - D = ?z" by (simp add: algebra_simps)
  ultimately have "toDouble (t - real j * D - D) = Fin ?z" by (simp only:)
  moreover have "dropW (Fin D) (Fin t) (Suc j) = toDouble (t - real j * D - D)"
    by (simp add: dropW_step ih fsub_def)
  ultimately show ?case by (simp only:)
qed

lemma dropW_closed_form_iff:
  assumes t: "t * 2 ^ q = of_int A" and D: "D * 2 ^ q = of_int P" and lt: "t * 2 ^ q < 2 ^ 53"
    and q: "q \<le> 1022" and D0: "0 < D"
  shows "(\<exists>j. 1 \<le> j \<and> j \<le> n \<and> dropW (Fin D) (Fin t) j \<le> Fin 0)
       = (\<exists>j. 1 \<le> j \<and> j \<le> n \<and> t - real j * D \<le> 0)"
proof
  assume "\<exists>j. 1 \<le> j \<and> j \<le> n \<and> dropW (Fin D) (Fin t) j \<le> Fin 0"
  then obtain j where j: "1 \<le> j" "j \<le> n" "dropW (Fin D) (Fin t) j \<le> Fin 0" by blast
  show "\<exists>j. 1 \<le> j \<and> j \<le> n \<and> t - real j * D \<le> 0"
  proof (rule ccontr)
    assume "\<not> (\<exists>j. 1 \<le> j \<and> j \<le> n \<and> t - real j * D \<le> 0)"
    with j(2) have all: "\<forall>i. 1 \<le> i \<and> i \<le> j \<longrightarrow> 0 < t - real i * D"
      by (metis le_trans not_le)
    then have "0 < t - real j * D" using j(1) by blast
    moreover from dropW_exact [OF t D lt q D0 all] j(3) have "t - real j * D \<le> 0" by simp
    ultimately show False by linarith
  qed
next
  assume "\<exists>j. 1 \<le> j \<and> j \<le> n \<and> t - real j * D \<le> 0"
  then obtain j where j: "1 \<le> j \<and> j \<le> n \<and> t - real j * D \<le> 0" by blast
  define J where "J = (LEAST j. 1 \<le> j \<and> j \<le> n \<and> t - real j * D \<le> 0)"
  have J: "1 \<le> J \<and> J \<le> n \<and> t - real J * D \<le> 0"
    unfolding J_def using j by (rule LeastI)
  have before: "\<forall>i. 1 \<le> i \<and> i \<le> J - 1 \<longrightarrow> 0 < t - real i * D"
  proof (intro allI impI)
    fix i assume i: "1 \<le> i \<and> i \<le> J - 1"
    with J have "i < J" by linarith
    then have "\<not> (1 \<le> i \<and> i \<le> n \<and> t - real i * D \<le> 0)"
      unfolding J_def by (rule not_less_Least)
    moreover from i J have "1 \<le> i \<and> i \<le> n" by linarith
    ultimately show "0 < t - real i * D" by simp
  qed
  from J obtain J' where J': "J = Suc J'" by (cases J) simp_all
  from dropW_exact [OF t D lt q D0 before]
  have "dropW (Fin D) (Fin t) J' = Fin (t - real J' * D)" by (simp add: J')
  then have "dropW (Fin D) (Fin t) J = toDouble (t - real J' * D - D)"
    by (simp add: J' dropW_step fsub_def)
  moreover have "t - real J' * D - D = t - real J * D"
    by (simp add: J' algebra_simps)
  ultimately have "dropW (Fin D) (Fin t) J \<le> Fin 0"
    using J toDouble_nonpos [of "t - real J * D"] by simp
  with J show "\<exists>j. 1 \<le> j \<and> j \<le> n \<and> dropW (Fin D) (Fin t) j \<le> Fin 0" by blast
qed

lemma topSingle_grid:
  fixes d :: real
  assumes d: "0 < d" and q: "1 \<le> q" "q \<le> 51" and dq: "d * 2 ^ q \<le> 2 ^ 52"
  defines "t \<equiv> of_int (round (0.95 * d / 2.5)) * (2.5::real)"
  shows "\<exists>A. t * 2 ^ q = of_int A" and "t * 2 ^ q < 2 ^ 53"
proof -
  from q obtain q' where q': "q = Suc q'" by (cases q) simp_all
  have "t * 2 ^ q = of_int (round (0.95 * d / 2.5) * 5 * 2 ^ q')"
    by (simp add: t_def q')
  then show "\<exists>A. t * 2 ^ q = of_int A" by blast
  have "of_int (round (0.95 * d / 2.5)) \<le> 0.95 * d / 2.5 + 1 / 2"
    by (rule of_int_round_le)
  then have "t \<le> 0.95 * d + 1.25" by (simp add: t_def)
  then have "t * 2 ^ q \<le> (0.95 * d + 1.25) * 2 ^ q"
    by (intro mult_right_mono) simp_all
  also have "\<dots> = 0.95 * (d * 2 ^ q) + 1.25 * 2 ^ q" by (simp add: algebra_simps)
  also have "\<dots> \<le> 0.95 * 2 ^ 52 + 1.25 * 2 ^ 51"
  proof -
    have "(2::real) ^ q \<le> 2 ^ 51" using q(2) by (intro power_increasing) simp_all
    with dq show ?thesis by simp
  qed
  also have "\<dots> < (2::real) ^ 53" by simp
  finally show "t * 2 ^ q < 2 ^ 53" .
qed

lemma chain_nth:
  "chain drp w vs \<Longrightarrow> k < length vs \<Longrightarrow> dropW drp w (Suc k) = vs ! k"
proof (induction vs arbitrary: w k)
  case Nil
  then show ?case by simp
next
  case (Cons v vs)
  show ?case
  proof (cases k)
    case 0
    with Cons.prems show ?thesis by (simp add: dropW_Suc)
  next
    case (Suc j)
    with Cons.prems Cons.IH [of v j] show ?thesis
      by (simp add: dropW_Suc [of drp w])
  qed
qed

text \<open>
  The running weights of the fixed-drop loop that starts at 5 and subtracts the double
  nearest to 0.1, \<open>3602879701896397 / 2^55\<close>, fifty times.
\<close>

lemma tenth_chain:
  "chain (Fin (3602879701896397 / 36028797018963968)) (Fin 5)
     [Fin (2758454771764429 / 562949953421312), Fin (1351079888211149 / 281474976710656),
      Fin (2645864781080167 / 562949953421312), Fin (647392446434509 / 140737488355328),
      Fin (2533274790395905 / 562949953421312), Fin (1238489897526887 / 281474976710656),
      Fin (2420684799711643 / 562949953421312), Fin (295548725546189 / 70368744177664),
      Fin (2308094809027381 / 562949953421312), Fin (1125899906842625 / 281474976710656),
      Fin (8782019273372475 / 2251799813685248), Fin (4278419646001975 / 1125899906842624),
      Fin (8331659310635425 / 2251799813685248), Fin (2026619832316725 / 562949953421312),
      Fin (7881299347898375 / 2251799813685248), Fin (3828059683264925 / 1125899906842624),
      Fin (7430939385161325 / 2251799813685248), Fin (225179981368525 / 70368744177664),
      Fin (6980579422424275 / 2251799813685248), Fin (3377699720527875 / 1125899906842624),
      Fin (6530219459687225 / 2251799813685248), Fin (1576259869579675 / 562949953421312),
      Fin (6079859496950175 / 2251799813685248), Fin (2927339757790825 / 1125899906842624),
      Fin (5629499534213125 / 2251799813685248), Fin (675539944105575 / 281474976710656),
      Fin (5179139571476075 / 2251799813685248), Fin (2476979795053775 / 1125899906842624),
      Fin (4728779608739025 / 2251799813685248), Fin (1125899906842625 / 562949953421312),
      Fin (4278419646001975 / 2251799813685248), Fin (2026619832316725 / 1125899906842624),
      Fin (3828059683264925 / 2251799813685248), Fin (225179981368525 / 140737488355328),
      Fin (3377699720527875 / 2251799813685248), Fin (1576259869579675 / 1125899906842624),
      Fin (2927339757790825 / 2251799813685248), Fin (675539944105575 / 562949953421312),
      Fin (2476979795053775 / 2251799813685248), Fin (1125899906842625 / 1125899906842624),
      Fin (8106479329266901 / 9007199254740992), Fin (3602879701896401 / 4503599627370496),
      Fin (6305039478318703 / 9007199254740992), Fin (1351079888211151 / 2251799813685248),
      Fin (4503599627370505 / 9007199254740992), Fin (1801439850948203 / 4503599627370496),
      Fin (2702159776422307 / 9007199254740992), Fin (7205759403792831 / 36028797018963968),
      Fin (1801439850948217 / 18014398509481984), Fin (37 / 36028797018963968)]"
proof -
  have s1: "fsub (Fin (5)) (Fin (3602879701896397 / 36028797018963968)) = Fin (2758454771764429 / 562949953421312)"
    by (rule fsub_small [where k = 50 and m = 5516909543528858]) simp_all
  have s2: "fsub (Fin (2758454771764429 / 562949953421312)) (Fin (3602879701896397 / 36028797018963968)) = Fin (1351079888211149 / 281474976710656)"
    by (rule fsub_small [where k = 50 and m = 5404319552844596]) simp_all
  have s3: "fsub (Fin (1351079888211149 / 281474976710656)) (Fin (3602879701896397 / 36028797018963968)) = Fin (2645864781080167 / 562949953421312)"
    by (rule fsub_small [where k = 50 and m = 5291729562160334]) simp_all
  have s4: "fsub (Fin (2645864781080167 / 562949953421312)) (Fin (3602879701896397 / 36028797018963968)) = Fin (647392446434509 / 140737488355328)"
    by (rule fsub_small [where k = 50 and m = 5179139571476072]) simp_all
  have s5: "fsub (Fin (647392446434509 / 140737488355328)) (Fin (3602879701896397 / 36028797018963968)) = Fin (2533274790395905 / 562949953421312)"
    by (rule fsub_small [where k = 50 and m = 5066549580791810]) simp_all
  have s6: "fsub (Fin (2533274790395905 / 562949953421312)) (Fin (3602879701896397 / 36028797018963968)) = Fin (1238489897526887 / 281474976710656)"
    by (rule fsub_small [where k = 50 and m = 4953959590107548]) simp_all
  have s7: "fsub (Fin (1238489897526887 / 281474976710656)) (Fin (3602879701896397 / 36028797018963968)) = Fin (2420684799711643 / 562949953421312)"
    by (rule fsub_small [where k = 50 and m = 4841369599423286]) simp_all
  have s8: "fsub (Fin (2420684799711643 / 562949953421312)) (Fin (3602879701896397 / 36028797018963968)) = Fin (295548725546189 / 70368744177664)"
    by (rule fsub_small [where k = 50 and m = 4728779608739024]) simp_all
  have s9: "fsub (Fin (295548725546189 / 70368744177664)) (Fin (3602879701896397 / 36028797018963968)) = Fin (2308094809027381 / 562949953421312)"
    by (rule fsub_small [where k = 50 and m = 4616189618054762]) simp_all
  have s10: "fsub (Fin (2308094809027381 / 562949953421312)) (Fin (3602879701896397 / 36028797018963968)) = Fin (1125899906842625 / 281474976710656)"
    by (rule fsub_small [where k = 50 and m = 4503599627370500]) simp_all
  have s11: "fsub (Fin (1125899906842625 / 281474976710656)) (Fin (3602879701896397 / 36028797018963968)) = Fin (8782019273372475 / 2251799813685248)"
    by (rule fsub_small [where k = 51 and m = 8782019273372475]) simp_all
  have s12: "fsub (Fin (8782019273372475 / 2251799813685248)) (Fin (3602879701896397 / 36028797018963968)) = Fin (4278419646001975 / 1125899906842624)"
    by (rule fsub_small [where k = 51 and m = 8556839292003950]) simp_all
  have s13: "fsub (Fin (4278419646001975 / 1125899906842624)) (Fin (3602879701896397 / 36028797018963968)) = Fin (8331659310635425 / 2251799813685248)"
    by (rule fsub_small [where k = 51 and m = 8331659310635425]) simp_all
  have s14: "fsub (Fin (8331659310635425 / 2251799813685248)) (Fin (3602879701896397 / 36028797018963968)) = Fin (2026619832316725 / 562949953421312)"
    by (rule fsub_small [where k = 51 and m = 8106479329266900]) simp_all
  have s15: "fsub (Fin (2026619832316725 / 562949953421312)) (Fin (3602879701896397 / 36028797018963968)) = Fin (7881299347898375 / 2251799813685248)"
    by (rule fsub_small [where k = 51 and m = 7881299347898375]) simp_all
  have s16: "fsub (Fin (7881299347898375 / 2251799813685248)) (Fin (3602879701896397 / 36028797018963968)) = Fin (3828059683264925 / 1125899906842624)"
    by (rule fsub_small [where k = 51 and m = 7656119366529850]) simp_all
  have s17: "fsub (Fin (3828059683264925 / 1125899906842624)) (Fin (3602879701896397 / 36028797018963968)) = Fin (7430939385161325 / 2251799813685248)"
    by (rule fsub_small [where k = 51 and m = 7430939385161325]) simp_all
  have s18: "fsub (Fin (7430939385161325 / 2251799813685248)) (Fin (3602879701896397 / 36028797018963968)) = Fin (225179981368525 / 70368744177664)"
    by (rule fsub_small [where k = 51 and m = 7205759403792800]) simp_all
  have s19: "fsub (Fin (225179981368525 / 70368744177664)) (Fin (3602879701896397 / 36028797018963968)) = Fin (6980579422424275 / 2251799813685248)"
    by (rule fsub_small [where k = 51 and m = 6980579422424275]) simp_all
  have s20: "fsub (Fin (6980579422424275 / 2251799813685248)) (Fin (3602879701896397 / 36028797018963968)) = Fin (3377699720527875 / 1125899906842624)"
    by (rule fsub_small [where k = 51 and m = 6755399441055750]) simp_all
  have s21: "fsub (Fin (3377699720527875 / 1125899906842624)) (Fin (3602879701896397 / 36028797018963968)) = Fin (6530219459687225 / 2251799813685248)"
    by (rule fsub_small [where k = 51 and m = 6530219459687225]) simp_all
  have s22: "fsub (Fin (6530219459687225 / 2251799813685248)) (Fin (3602879701896397 / 36028797018963968)) = Fin (1576259869579675 / 562949953421312)"
    by (rule fsub_small [where k = 51 and m = 6305039478318700]) simp_all
  have s23: "fsub (Fin (1576259869579675 / 562949953421312)) (Fin (3602879701896397 / 36028797018963968)) = Fin (6079859496950175 / 2251799813685248)"
    by (rule fsub_small [where k = 51 and m = 6079859496950175]) simp_all
  have s24: "fsub (Fin (6079859496950175 / 2251799813685248)) (Fin (3602879701896397 / 36028797018963968)) = Fin (2927339757790825 / 1125899906842624)"
    by (rule fsub_small [where k = 51 and m = 5854679515581650]) simp_all
  have s25: "fsub (Fin (2927339757790825 / 1125899906842624)) (Fin (3602879701896397 / 36028797018963968)) = Fin (5629499534213125 / 2251799813685248)"
    by (rule fsub_small [where k = 51 and m = 5629499534213125]) simp_all
  have s26: "fsub (Fin (5629499534213125 / 2251799813685248)) (Fin (3602879701896397 / 36028797018963968)) = Fin (675539944105575 / 281474976710656)"
    by (rule fsub_small [where k = 51 and m = 5404319552844600]) simp_all
  have s27: "fsub (Fin (675539944105575 / 281474976710656)) (Fin (3602879701896397 / 36028797018963968)) = Fin (5179139571476075 / 2251799813685248)"
    by (rule fsub_small [where k = 51 and m = 5179139571476075]) simp_all
  have s28: "fsub (Fin (5179139571476075 / 2251799813685248)) (Fin (3602879701896397 / 36028797018963968)) = Fin (2476979795053775 / 1125899906842624)"
    by (rule fsub_small [where k = 51 and m = 4953959590107550]) simp_all
  have s29: "fsub (Fin (2476979795053775 / 1125899906842624)) (Fin (3602879701896397 / 36028797018963968)) = Fin (4728779608739025 / 2251799813685248)"
    by (rule fsub_small [where k = 51 and m = 4728779608739025]) simp_all
  have s30: "fsub (Fin (4728779608739025 / 2251799813685248)) (Fin (3602879701896397 / 36028797018963968)) = Fin (1125899906842625 / 562949953421312)"
    by (rule fsub_small [where k = 51 and m = 4503599627370500]) simp_all
  have s31: "fsub (Fin (1125899906842625 / 562949953421312)) (Fin (3602879701896397 / 36028797018963968)) = Fin (4278419646001975 / 2251799813685248)"
    by (rule fsub_small [where k = 52 and m = 8556839292003950]) simp_all
  have s32: "fsub (Fin (4278419646001975 / 2251799813685248)) (Fin (3602879701896397 / 36028797018963968)) = Fin (2026619832316725 / 1125899906842624)"
    by (rule fsub_small [where k = 52 and m = 8106479329266900]) simp_all
  have s33: "fsub (Fin (2026619832316725 / 1125899906842624)) (Fin (3602879701896397 / 36028797018963968)) = Fin (3828059683264925 / 2251799813685248)"
    by (rule fsub_small [where k = 52 and m = 7656119366529850]) simp_all
  have s34: "fsub (Fin (3828059683264925 / 2251799813685248)) (Fin (3602879701896397 / 36028797018963968)) = Fin (225179981368525 / 140737488355328)"
    by (rule fsub_small [where k = 52 and m = 7205759403792800]) simp_all
  have s35: "fsub (Fin (225179981368525 / 140737488355328)) (Fin (3602879701896397 / 36028797018963968)) = Fin (3377699720527875 / 2251799813685248)"
    by (rule fsub_small [where k = 52 and m = 6755399441055750]) simp_all
  have s36: "fsub (Fin (3377699720527875 / 2251799813685248)) (Fin (3602879701896397 / 36028797018963968)) = Fin (1576259869579675 / 1125899906842624)"
    by (rule fsub_small [where k = 52 and m = 6305039478318700]) simp_all
  have s37: "fsub (Fin (1576259869579675 / 1125899906842624)) (Fin (3602879701896397 / 36028797018963968)) = Fin (2927339757790825 / 2251799813685248)"
    by (rule fsub_small [where k = 52 and m = 5854679515581650]) simp_all
  have s38: "fsub (Fin (2927339757790825 / 2251799813685248)) (Fin (3602879701896397 / 36028797018963968)) = Fin (675539944105575 / 562949953421312)"
    by (rule fsub_small [where k = 52 and m = 5404319552844600]) simp_all
  have s39: "fsub (Fin (675539944105575 / 562949953421312)) (Fin (3602879701896397 / 36028797018963968)) = Fin (2476979795053775 / 2251799813685248)"
    by (rule fsub_small [where k = 52 and m = 4953959590107550]) simp_all
  have s40: "fsub (Fin (2476979795053775 / 2251799813685248)) (Fin (3602879701896397 / 36028797018963968)) = Fin (1125899906842625 / 1125899906842624)"
    by (rule fsub_small [where k = 52 and m = 4503599627370500]) simp_all
  have s41: "fsub (Fin (1125899906842625 / 1125899906842624)) (Fin (3602879701896397 / 36028797018963968)) = Fin (8106479329266901 / 9007199254740992)"
    by (rule fsub_small [where k = 53 and m = 8106479329266901]) simp_all
  have s42: "fsub (Fin (8106479329266901 / 9007199254740992)) (Fin (3602879701896397 / 36028797018963968)) = Fin (3602879701896401 / 4503599627370496)"
    by (rule fsub_small [where k = 53 and m = 7205759403792802]) simp_all
  have s43: "fsub (Fin (3602879701896401 / 4503599627370496)) (Fin (3602879701896397 / 36028797018963968)) = Fin (6305039478318703 / 9007199254740992)"
    by (rule fsub_small [where k = 53 and m = 6305039478318703]) simp_all
  have s44: "fsub (Fin (6305039478318703 / 9007199254740992)) (Fin (3602879701896397 / 36028797018963968)) = Fin (1351079888211151 / 2251799813685248)"
    by (rule fsub_small [where k = 53 and m = 5404319552844604]) simp_all
  have s45: "fsub (Fin (1351079888211151 / 2251799813685248)) (Fin (3602879701896397 / 36028797018963968)) = Fin (4503599627370505 / 9007199254740992)"
    by (rule fsub_small [where k = 53 and m = 4503599627370505]) simp_all
  have s46: "fsub (Fin (4503599627370505 / 9007199254740992)) (Fin (3602879701896397 / 36028797018963968)) = Fin (1801439850948203 / 4503599627370496)"
    by (rule fsub_tie [where k = 54 and n = 7205759403792811]) simp_all
  have s47: "fsub (Fin (1801439850948203 / 4503599627370496)) (Fin (3602879701896397 / 36028797018963968)) = Fin (2702159776422307 / 9007199254740992)"
    by (rule fsub_tie [where k = 54 and n = 5404319552844613]) simp_all
  have s48: "fsub (Fin (2702159776422307 / 9007199254740992)) (Fin (3602879701896397 / 36028797018963968)) = Fin (7205759403792831 / 36028797018963968)"
    by (rule fsub_small [where k = 55 and m = 7205759403792831]) simp_all
  have s49: "fsub (Fin (7205759403792831 / 36028797018963968)) (Fin (3602879701896397 / 36028797018963968)) = Fin (1801439850948217 / 18014398509481984)"
    by (rule fsub_small [where k = 56 and m = 7205759403792868]) simp_all
  have s50: "fsub (Fin (1801439850948217 / 18014398509481984)) (Fin (3602879701896397 / 36028797018963968)) = Fin (37 / 36028797018963968)"
    by (rule fsub_small [where k = 102 and m = 5207287069147136]) simp_all
  show ?thesis
    by (simp only: chain.simps simp_thms
        s1 s2 s3 s4 s5 s6 s7 s8 s9 s10 s11 s12 s13 s14 s15 s16 s17 s18 s19 s20 s21 s22 s23 s24 s25
        s26 s27 s28 s29 s30 s31 s32 s33 s34 s35 s36 s37 s38 s39 s40 s41 s42 s43 s44 s45 s46 s47 s48 s49 s50)
qed

section \<open>The fixed-drop plan\<close>

text \<open>
  Claim C7.  The claim: for a positive finite \<open>dailyMax\<close>, a positive \<open>drop\<close> and a count
  \<open>sets = n\<close> that is a non-negative integer, \<open>rpFixedDropPlan\<close> returns at most \<open>n\<close> back-off
  rows, and fewer than \<open>n\<close> exactly when the running weight, \<open>topSingle\<close> minus \<open>i\<close> times
  \<open>drop\<close>, would reach 0 or less.  The loop does not compute \<open>topSingle - i * drop\<close>: it
  subtracts \<open>drop\<close> from the running weight once per iteration, and each subtraction is
  rounded to a double.  With \<open>dailyMax = 5\<close>, \<open>drop = 0.1\<close> (the double nearest to one
  tenth, \<open>3602879701896397 / 2^55\<close>) and \<open>sets = 50\<close>, \<open>topSingle\<close> is 5 and
  \<open>topSingle - 50 * drop\<close> is at most 0, both exactly and with the product and the
  difference rounded to doubles; but the running weight of the loop after fifty
  subtractions is \<open>37 / 2^55\<close>, above 0, and all 50 rows are returned.
\<close>

theorem rpFixedDropPlan_row_count_drifts:
  "toDouble (1 / 10) = Fin (3602879701896397 / 36028797018963968)
   \<and> map_option topSingle
        (rpFixedDropPlan (Fin 5) (Fin (3602879701896397 / 36028797018963968)) (Fin 50)
           [Fin 3, Fin 5, Fin 7, Fin 9])
       = Some (Some (Fin 5))
   \<and> map_option (\<lambda>p. length (sets_drop p))
        (rpFixedDropPlan (Fin 5) (Fin (3602879701896397 / 36028797018963968)) (Fin 50)
           [Fin 3, Fin 5, Fin 7, Fin 9])
       = Some 50
   \<and> Fin 5 - Fin 50 * Fin (3602879701896397 / 36028797018963968) \<le> Fin 0
   \<and> fsub (Fin 5) (toDouble (50 * (3602879701896397 / 36028797018963968))) \<le> Fin 0
   \<and> dropW (Fin (3602879701896397 / 36028797018963968)) (Fin 5) 50
       = Fin (37 / 36028797018963968)"
proof -
  let ?D = "Fin (3602879701896397 / 36028797018963968)"
  let ?rs = "[Fin 3, Fin 5, Fin 7, Fin 9]"
  obtain ws where ch: "chain ?D (Fin 5) ws" and len: "length ws = 50"
    and pos: "\<forall>v\<in>set ws. \<not> v \<le> Fin 0" and last: "ws ! 49 = Fin (37 / 36028797018963968)"
    using tenth_chain by (rule that) simp_all
  have run: "dropW ?D (Fin 5) (Suc k) = ws ! k" if "k < 50" for k
    using chain_nth [OF ch] that len by simp
  have tenth: "toDouble (1 / 10) = ?D"
    by (rule toDouble_small [where k = 56 and m = 7205759403792794]) simp_all
  have top: "roundToNearest2point5 (Fin 0.95 * Fin 5) = Fin 5"
    by code_simp
  obtain m where
    eq: "dropLoop ?D (Fin 50) ?rs 0 (Fin 5) [] = Some ([] @ map (dropRow ?D ?rs 0 (Fin 5)) [0..<m])"
    and all: "\<forall>k<m. Fin (real (0 + k)) < Fin 50 \<and> \<not> dropW ?D (Fin 5) (Suc k) \<le> Fin 0"
    and stop: "\<not> Fin (real (0 + m)) < Fin 50 \<or> dropW ?D (Fin 5) (Suc m) \<le> Fin 0"
    using dropLoop_unfold [of "Fin 50" ?D ?rs 0 "Fin 5" "[]"] by blast
  have le: "m \<le> 50"
  proof (rule ccontr)
    assume "\<not> m \<le> 50"
    then have "50 < m" by simp
    with all have "Fin (real (0 + 50)) < Fin 50" by blast
    then show False by simp
  qed
  have m: "m = 50"
  proof (rule ccontr)
    assume "m \<noteq> 50"
    with le have lt: "m < 50" by simp
    with stop have "dropW ?D (Fin 5) (Suc m) \<le> Fin 0" by simp
    then have "ws ! m \<le> Fin 0" using run [OF lt] by simp
    moreover have "ws ! m \<in> set ws" using lt len by simp
    ultimately show False using pos by blast
  qed
  have plan: "rpFixedDropPlan (Fin 5) ?D (Fin 50) ?rs
         = Some \<lparr>topSingle = Some (Fin 5), sets_drop = map (dropRow ?D ?rs 0 (Fin 5)) [0..<50],
             tonnage_drop = round2 (Fin 5 * Fin 1
               + foldl (\<lambda>a b. a + rowTonnage b) (Fin 0) (map (dropRow ?D ?rs 0 (Fin 5)) [0..<50]))\<rparr>"
    unfolding rpFixedDropPlan_def Let_def top using eq by (simp add: m)
  have prod: "toDouble (50 * (3602879701896397 / 36028797018963968)) = Fin 5"
    by (rule toDouble_small [where k = 50 and m = 5629499534213120]) simp_all
  have "fsub (Fin 5) (Fin 5) \<le> Fin 0"
    by (simp add: fsub_def toDouble_def)
  then have diff: "fsub (Fin 5) (toDouble (50 * (3602879701896397 / 36028797018963968))) \<le> Fin 0"
    by (simp only: prod)
  have exact: "Fin 5 - Fin 50 * ?D \<le> Fin 0"
    by simp
  have w50: "dropW ?D (Fin 5) 50 = Fin (37 / 36028797018963968)"
    using run [of 49] last by simp
  from tenth diff exact w50 show ?thesis
    by (simp only: plan option.map drop_plan.simps length_map length_upt) simp
qed

text \<open>
  Claim C7, amended.  For a positive finite \<open>dailyMax\<close>, every \<open>drop\<close> and a count
  \<open>sets = n\<close> that is a non-negative integer, \<open>rpFixedDropPlan\<close> returns a plan with at most
  \<open>n\<close> back-off rows.  It has fewer than \<open>n\<close> rows exactly when the running weight of the
  loop is at most 0 after some number \<open>j\<close> of subtractions, \<open>j\<close> from 1 to \<open>n\<close>; every row that
  is returned comes from a running weight above 0, and the loop stops at the first
  running weight that is not.  The running weight after \<open>j\<close> subtractions is \<open>topSingle\<close>
  with \<open>drop\<close> subtracted \<open>j\<close> times, each difference rounded to a double (\<open>dropW\<close>); it need
  not be \<open>topSingle - j * drop\<close>.  It is when no subtraction rounds: for a \<open>drop\<close> that is
  a positive multiple of \<open>2^(-q)\<close> with \<open>q\<close> from 1 to 51 (of 0.5, the step of the input
  field, for \<open>q = 1\<close>) and a \<open>dailyMax\<close> of at most \<open>2^(52 - q)\<close>, the plan has fewer than \<open>n\<close>
  rows exactly when \<open>topSingle - j * drop\<close> is at most 0 for some \<open>j\<close> from 1 to \<open>n\<close>.
\<close>

theorem rpFixedDropPlan_row_count:
  assumes "0 < d"
  shows "\<exists>plan top1. rpFixedDropPlan (Fin d) drp (Fin (real n)) repScheme = Some plan
           \<and> topSingle plan = Some (Fin top1)
           \<and> length (sets_drop plan) \<le> n
           \<and> (length (sets_drop plan) < n)
               = (\<exists>j. 1 \<le> j \<and> j \<le> n \<and> dropW drp (Fin top1) j \<le> Fin 0)
           \<and> (\<forall>j. 1 \<le> j \<and> j \<le> length (sets_drop plan)
                  \<longrightarrow> \<not> dropW drp (Fin top1) j \<le> Fin 0)
           \<and> (length (sets_drop plan) < n
                  \<longrightarrow> dropW drp (Fin top1) (Suc (length (sets_drop plan))) \<le> Fin 0)
           \<and> (\<forall>q P. 1 \<le> q \<and> q \<le> 51 \<and> d * 2 ^ q \<le> 2 ^ 52 \<and> 0 < P
                    \<and> drp = Fin (of_int P / 2 ^ q)
                  \<longrightarrow> (length (sets_drop plan) < n)
                        = (\<exists>j. 1 \<le> j \<and> j \<le> n \<and> Fin top1 - Fin (real j) * drp \<le> Fin 0))"
proof -
  define top1 where "top1 = of_int (round (0.95 * d / 2.5)) * (2.5::real)"
  have top: "roundToNearest2point5 (Fin 0.95 * Fin d) = Fin top1"
    by (simp add: roundTo_Fin top1_def)
  obtain m where
    eq: "dropLoop drp (Fin (real n)) repScheme 0 (Fin top1) []
           = Some ([] @ map (dropRow drp repScheme 0 (Fin top1)) [0..<m])"
    and all: "\<forall>k<m. Fin (real (0 + k)) < Fin (real n) \<and> \<not> dropW drp (Fin top1) (Suc k) \<le> Fin 0"
    and stop: "\<not> Fin (real (0 + m)) < Fin (real n) \<or> dropW drp (Fin top1) (Suc m) \<le> Fin 0"
    using dropLoop_unfold [of "Fin (real n)" drp repScheme 0 "Fin top1" "[]"] by blast
  let ?rows = "map (dropRow drp repScheme 0 (Fin top1)) [0..<m]"
  let ?plan = "\<lparr>topSingle = Some (Fin top1), sets_drop = ?rows,
                tonnage_drop = round2 (Fin top1 * Fin 1 + foldl (\<lambda>a b. a + rowTonnage b) (Fin 0) ?rows)\<rparr>"
  have plan: "rpFixedDropPlan (Fin d) drp (Fin (real n)) repScheme = Some ?plan"
    unfolding rpFixedDropPlan_def Let_def top using assms eq by simp
  have le: "m \<le> n"
  proof (rule ccontr)
    assume "\<not> m \<le> n"
    then have "n < m" by simp
    with all have "Fin (real (0 + n)) < Fin (real n)" by blast
    then show False by simp
  qed
  have first: "dropW drp (Fin top1) (Suc m) \<le> Fin 0" if "m < n"
    using stop that by simp
  have short: "(m < n) = (\<exists>j. 1 \<le> j \<and> j \<le> n \<and> dropW drp (Fin top1) j \<le> Fin 0)"
  proof
    assume "m < n"
    with first show "\<exists>j. 1 \<le> j \<and> j \<le> n \<and> dropW drp (Fin top1) j \<le> Fin 0"
      by (intro exI[of _ "Suc m"]) simp
  next
    assume "\<exists>j. 1 \<le> j \<and> j \<le> n \<and> dropW drp (Fin top1) j \<le> Fin 0"
    then obtain j where j: "1 \<le> j" "j \<le> n" "dropW drp (Fin top1) j \<le> Fin 0"
      by blast
    show "m < n"
    proof (rule ccontr)
      assume "\<not> m < n"
      with j have "j - 1 < m" by linarith
      with all have "\<not> dropW drp (Fin top1) (Suc (j - 1)) \<le> Fin 0" by blast
      with j show False by simp
    qed
  qed
  have kept: "\<not> dropW drp (Fin top1) j \<le> Fin 0" if "1 \<le> j \<and> j \<le> m" for j
  proof -
    from that have "j - 1 < m" by linarith
    with all have "\<not> dropW drp (Fin top1) (Suc (j - 1)) \<le> Fin 0" by blast
    with that show ?thesis by simp
  qed
  have closed: "(m < n) = (\<exists>j. 1 \<le> j \<and> j \<le> n \<and> Fin top1 - Fin (real j) * drp \<le> Fin 0)"
    if H: "1 \<le> q \<and> q \<le> 51 \<and> d * 2 ^ q \<le> 2 ^ 52 \<and> 0 < P \<and> drp = Fin (of_int P / 2 ^ q)"
    for q and P :: int
  proof -
    define D :: real where "D = of_int P / 2 ^ q"
    from H have drp: "drp = Fin D" and D0: "0 < D" by (simp_all add: D_def)
    have DP: "D * 2 ^ q = of_int P" by (simp add: D_def)
    from H assms topSingle_grid [of d q] obtain A where
      A: "top1 * 2 ^ q = of_int A" and lt: "top1 * 2 ^ q < 2 ^ 53"
      unfolding top1_def by blast
    from H have q: "q \<le> 1022" by simp
    from dropW_closed_form_iff [OF A DP lt q D0, of n] short show ?thesis
      by (simp add: drp)
  qed
  show ?thesis
    using plan le short kept first closed by (intro exI[of _ ?plan] exI[of _ top1]) simp
qed

theorem rpFixedDropPlan_row_count_witness:
  "(0::real) < 100
   \<and> (\<exists>plan top1. rpFixedDropPlan (Fin 100) (Fin 30) (Fin (real (4::nat))) [Fin 3] = Some plan
           \<and> topSingle plan = Some (Fin top1)
           \<and> length (sets_drop plan) \<le> 4
           \<and> (length (sets_drop plan) < 4)
               = (\<exists>j. 1 \<le> j \<and> j \<le> 4 \<and> dropW (Fin 30) (Fin top1) j \<le> Fin 0)
           \<and> (length (sets_drop plan) < 4)
               = (\<exists>j. 1 \<le> j \<and> j \<le> 4 \<and> Fin top1 - Fin (real j) * Fin 30 \<le> Fin 0))
   \<and> map weight_drop (sets_drop (the (rpFixedDropPlan (Fin 100) (Fin 30) (Fin 4) [Fin 3])))
       = [Fin 65, Fin 35, Fin 5]"
proof -
  have h1: "(0::real) < 100" by simp
  have ev: "map weight_drop (sets_drop (the (rpFixedDropPlan (Fin 100) (Fin 30) (Fin 4) [Fin 3])))
       = [Fin 65, Fin 35, Fin 5]"
    by code_simp
  from rpFixedDropPlan_row_count [OF h1, of "Fin 30" 4 "[Fin 3]"] obtain plan top1 where
    p: "rpFixedDropPlan (Fin 100) (Fin 30) (Fin (real (4::nat))) [Fin 3] = Some plan"
       "topSingle plan = Some (Fin top1)"
       "length (sets_drop plan) \<le> 4"
       "(length (sets_drop plan) < 4)
          = (\<exists>j. 1 \<le> j \<and> j \<le> 4 \<and> dropW (Fin 30) (Fin top1) j \<le> Fin 0)"
    and c: "\<forall>q P. 1 \<le> q \<and> q \<le> 51 \<and> (100::real) * 2 ^ q \<le> 2 ^ 52 \<and> 0 < P
                  \<and> Fin 30 = Fin (of_int P / 2 ^ q)
              \<longrightarrow> (length (sets_drop plan) < 4)
                    = (\<exists>j. 1 \<le> j \<and> j \<le> 4 \<and> Fin top1 - Fin (real j) * Fin 30 \<le> Fin 0)"
    by blast
  have "1 \<le> (1::nat) \<and> (1::nat) \<le> 51 \<and> (100::real) * 2 ^ (1::nat) \<le> 2 ^ 52 \<and> 0 < (60::int)
          \<and> Fin 30 = Fin (of_int 60 / 2 ^ (1::nat))"
    by simp
  with c have "(length (sets_drop plan) < 4)
          = (\<exists>j. 1 \<le> j \<and> j \<le> 4 \<and> Fin top1 - Fin (real j) * Fin 30 \<le> Fin 0)"
    by blast
  with h1 ev p show ?thesis
    by blast
qed

text \<open>
  Claim C8.  The claim: \<open>rpFixedDropPlan\<close> called with a \<open>drop\<close> that is zero or not finite
  returns its empty plan.  The function never looks at \<open>drop\<close> before the loop: with
  \<open>dailyMax = 100\<close> and \<open>drop = 0\<close> it returns a top single of 95 and four back-off rows of
  weight 95.
\<close>

theorem rpFixedDropPlan_zero_drop_not_empty:
  "rpFixedDropPlan (Fin 100) (Fin 0) (Fin 4) [Fin 3, Fin 5, Fin 7, Fin 9]
     = Some \<lparr>topSingle = Some (Fin 95),
             sets_drop = [\<lparr>weight_drop = Fin 95, reps_drop = Some (Fin 3), note_drop = Fin 0\<rparr>,
                          \<lparr>weight_drop = Fin 95, reps_drop = Some (Fin 5), note_drop = Fin 0\<rparr>,
                          \<lparr>weight_drop = Fin 95, reps_drop = Some (Fin 7), note_drop = Fin 0\<rparr>,
                          \<lparr>weight_drop = Fin 95, reps_drop = Some (Fin 9), note_drop = Fin 0\<rparr>],
             tonnage_drop = Fin 2375\<rparr>"
  by code_simp

text \<open>
  Claim C8, amended.  For every \<open>drop\<close>, zero and the non-finite values included,
  \<open>rpFixedDropPlan\<close> returns its empty plan exactly when \<open>dailyMax\<close> is zero or NaN; and it
  raises nothing: whenever \<open>sets\<close> is not \<open>+Infinity\<close> the call returns.
\<close>

theorem rpFixedDropPlan_empty_iff:
  "(rpFixedDropPlan dailyMax drp nsets repScheme
      = Some \<lparr>topSingle = None, sets_drop = [], tonnage_drop = Fin 0\<rparr>) = (\<not> truthy dailyMax)
   \<and> (nsets \<noteq> PInf \<longrightarrow> rpFixedDropPlan dailyMax drp nsets repScheme \<noteq> None)"
proof -
  have a: "(rpFixedDropPlan dailyMax drp nsets repScheme
      = Some \<lparr>topSingle = None, sets_drop = [], tonnage_drop = Fin 0\<rparr>) = (\<not> truthy dailyMax)"
    by (simp add: rpFixedDropPlan_def Let_def split: option.splits)
  have b: "rpFixedDropPlan dailyMax drp nsets repScheme \<noteq> None" if "nsets \<noteq> PInf"
    using dropLoop_unfold [OF that, of drp repScheme 0 "roundToNearest2point5 (Fin 0.95 * dailyMax)" "[]"]
    by (auto simp: rpFixedDropPlan_def Let_def)
  from a b show ?thesis by blast
qed

theorem rpFixedDropPlan_empty_iff_witness:
  "rpFixedDropPlan (Fin 0) NaN (Fin 4) [Fin 3]
     = Some \<lparr>topSingle = None, sets_drop = [], tonnage_drop = Fin 0\<rparr>
   \<and> rpFixedDropPlan (Fin 100) NaN (Fin 4) [Fin 3]
     \<noteq> Some \<lparr>topSingle = None, sets_drop = [], tonnage_drop = Fin 0\<rparr>
   \<and> rpFixedDropPlan (Fin 100) NaN (Fin 4) [Fin 3] \<noteq> None"
  using rpFixedDropPlan_empty_iff [of "Fin 0" NaN "Fin 4" "[Fin 3]"]
    rpFixedDropPlan_empty_iff [of "Fin 100" NaN "Fin 4" "[Fin 3]"]
  by simp

section \<open>The safety guard of the ladder loop\<close>

lemma number_le_trans: "a \<le> b \<Longrightarrow> b \<le> c \<Longrightarrow> a \<le> c" for a b c :: number
  by (cases a; cases b; cases c) simp_all

lemma number_le_less_trans: "a \<le> b \<Longrightarrow> b < c \<Longrightarrow> a < c" for a b c :: number
  by (cases a; cases b; cases c) simp_all

lemma maxmin_cases:
  "Math_max (Fin 1) (Math_min cap x) = NaN \<or> Math_max (Fin 1) (Math_min cap x) \<le> cap
    \<or> Math_max (Fin 1) (Math_min cap x) = Fin 1"
  by (cases cap; cases x) (auto simp: Math_max_def Math_min_def)

lemma startReps_cases:
  "fst (startPoint T inc cap p) = NaN \<or> fst (startPoint T inc cap p) \<le> cap
    \<or> fst (startPoint T inc cap p) = Fin 1"
proof (cases p)
  case True
  then show ?thesis
    using maxmin_cases [of cap "Math_floor (Fin 1 + T / inc)"]
    by (simp add: startPoint_def Let_def)
next
  case False
  have "cap = NaN \<or> cap \<le> cap" by (cases cap) simp_all
  with False show ?thesis
    using maxmin_cases [of cap "Fin 1 + Math_floor ((T - BAR) / inc)"]
    by (auto simp: startPoint_def Let_def)
qed

lemma rungReps_PInf [simp]: "rungReps PInf k = PInf"
  by (induction k) (simp_all add: rungReps_Suc minus_number_def)

lemma rungReps_NInf [simp]: "rungReps NInf k = NInf"
  by (induction k) (simp_all add: rungReps_Suc minus_number_def)

lemma rungReps_NaN [simp]: "rungReps NaN k = NaN"
  by (induction k) (simp_all add: rungReps_Suc minus_number_def)

lemma rungReps_bound:
  assumes "rungReps r k \<ge> Fin 1" and "r \<le> Fin b"
  shows "real k + 1 \<le> b"
  using assms by (cases r) (simp_all add: rungReps_Fin)

lemma rungReps_bound_strict:
  assumes "rungReps r k \<ge> Fin 1" and "r < Fin b"
  shows "real k + 1 < b"
  using assms by (cases r) (simp_all add: rungReps_Fin)

text \<open>
  Claim C9.  The claim: with \<open>startRepCap \<le> 400\<close> the guard counter of the ladder loop
  never reaches 400.  With \<open>startRepCap = 400\<close> it can: the pull-up ladder for
  \<open>dailyMax = 1000\<close> and \<open>increment = 1\<close> starts at 400 reps and weight 601, the loop runs
  400 times, and the counter is 400 at the exit.
\<close>

theorem ladderLoop_guard_reaches_400:
  "snd (snd (snd (ladderLoop (Fin 1000) (Fin 1) []
      (fst (startPoint (Fin 1000) (Fin 1) (Fin 400) True))
      (snd (startPoint (Fin 1000) (Fin 1) (Fin 400) True)) 0))) = 400"
proof -
  have sp: "startPoint (Fin 1000) (Fin 1) (Fin 400) True = (Fin 400, Fin 601)"
    by (simp add: startPoint_def Let_def Math_max_def Math_min_def)
  have c: "loopCond (Fin 1000) (Fin 1) (Fin 400) (Fin 601) 0 k = (k < 400)" for k
    by (auto simp: loopCond_def rungReps_Fin rungWeight_Fin)
  obtain n where
    eq: "ladderLoop (Fin 1000) (Fin 1) [] (Fin 400) (Fin 601) 0
          = ([] @ map (rung (Fin 1) (Fin 400) (Fin 601)) [0..<n], rungReps (Fin 400) n,
             rungWeight (Fin 1) (Fin 601) n, 0 + n)"
    and all: "\<forall>k<n. loopCond (Fin 1000) (Fin 1) (Fin 400) (Fin 601) 0 k"
    and stop: "\<not> loopCond (Fin 1000) (Fin 1) (Fin 400) (Fin 601) 0 n"
    using ladderLoop_unfold [of "Fin 1000" "Fin 1" "[]" "Fin 400" "Fin 601" 0] by blast
  from stop have "400 \<le> n" by (simp add: c)
  moreover have "n \<le> 400"
  proof (rule ccontr)
    assume "\<not> n \<le> 400"
    then have "400 < n" by simp
    with all have "loopCond (Fin 1000) (Fin 1) (Fin 400) (Fin 601) 0 400" by blast
    then show False by (simp add: c)
  qed
  ultimately have "n = 400" by simp
  with eq show ?thesis by (simp add: sp)
qed

text \<open>
  Claim C9, amended.  With \<open>startRepCap \<le> 400\<close>, for every \<open>dailyMax\<close> and \<open>increment\<close>, the
  ladder loop stops because \<open>reps\<close> is below 1 or \<open>w\<close> is above \<open>dailyMax + 1e-6\<close>: at the
  exit that part of the loop condition is false, so the guard is never what ends the
  loop.  The guard counter equals the number of rungs pushed and is at most 400; it is
  below 400 when \<open>startRepCap < 400\<close>, and it is at most the start reps.
\<close>

theorem ladderLoop_guard_never_decides:
  assumes cap: "startRepCap \<le> Fin 400"
    and run: "ladderLoop dailyMax increment []
                (fst (startPoint dailyMax increment startRepCap isPullup))
                (snd (startPoint dailyMax increment startRepCap isPullup)) 0
              = (rows, r, w, guard)"
  shows "\<not> (r \<ge> Fin 1 \<and> w \<le> dailyMax + Fin (1 / 1000000))
       \<and> guard = length rows \<and> guard \<le> 400
       \<and> (startRepCap < Fin 400 \<longrightarrow> guard < 400)
       \<and> (0 < guard \<longrightarrow>
            Fin (real guard) \<le> fst (startPoint dailyMax increment startRepCap isPullup))"
proof -
  let ?sr = "fst (startPoint dailyMax increment startRepCap isPullup)"
  let ?sw = "snd (startPoint dailyMax increment startRepCap isPullup)"
  obtain n where
    eq: "ladderLoop dailyMax increment [] ?sr ?sw 0
          = ([] @ map (rung increment ?sr ?sw) [0..<n], rungReps ?sr n,
             rungWeight increment ?sw n, 0 + n)"
    and all: "\<forall>k<n. loopCond dailyMax increment ?sr ?sw 0 k"
    and stop: "\<not> loopCond dailyMax increment ?sr ?sw 0 n"
    using ladderLoop_unfold [of dailyMax increment "[]" ?sr ?sw 0] by blast
  from eq run have g: "guard = n" and len: "length rows = n"
    and r: "r = rungReps ?sr n" and w: "w = rungWeight increment ?sw n"
    by auto
  have le: "?sr \<le> Fin 400" if "loopCond dailyMax increment ?sr ?sw 0 k" for k
  proof -
    from that have ge: "rungReps ?sr k \<ge> Fin 1" by (simp add: loopCond_def)
    then have "?sr \<noteq> NaN" by auto
    with startReps_cases [of dailyMax increment startRepCap isPullup]
    show ?thesis using cap by (auto intro: number_le_trans)
  qed
  have lt: "?sr < Fin 400"
    if "loopCond dailyMax increment ?sr ?sw 0 k" and "startRepCap < Fin 400" for k
  proof -
    from that have ge: "rungReps ?sr k \<ge> Fin 1" by (simp add: loopCond_def)
    then have "?sr \<noteq> NaN" by auto
    with startReps_cases [of dailyMax increment startRepCap isPullup]
    show ?thesis using that(2) by (auto intro: number_le_less_trans)
  qed
  have n400: "n \<le> 400"
  proof (cases n)
    case 0 then show ?thesis by simp
  next
    case (Suc m)
    with all have "loopCond dailyMax increment ?sr ?sw 0 m" by simp
    then show ?thesis using Suc by (simp add: loopCond_def)
  qed
  have exit: "\<not> (r \<ge> Fin 1 \<and> w \<le> dailyMax + Fin (1 / 1000000))"
  proof (cases "n < 400")
    case True
    with stop show ?thesis by (simp add: loopCond_def r w)
  next
    case False
    with n400 have n: "n = 400" by simp
    then have c: "loopCond dailyMax increment ?sr ?sw 0 399" using all by simp
    then have "rungReps ?sr 399 \<ge> Fin 1" by (simp add: loopCond_def)
    moreover from le [OF c] have "?sr \<le> Fin 400" .
    ultimately have "\<not> rungReps ?sr 400 \<ge> Fin 1"
      by (cases ?sr) (simp_all add: rungReps_Fin)
    then show ?thesis by (simp add: r n)
  qed
  have strict: "n < 400" if "startRepCap < Fin 400"
  proof (cases n)
    case 0 then show ?thesis by simp
  next
    case (Suc m)
    with all have c: "loopCond dailyMax increment ?sr ?sw 0 m" by simp
    then have "rungReps ?sr m \<ge> Fin 1" by (simp add: loopCond_def)
    from rungReps_bound_strict [OF this lt [OF c that]] show ?thesis
      using Suc by simp
  qed
  have bounded: "Fin (real n) \<le> ?sr" if "0 < n"
  proof -
    from that obtain m where m: "n = Suc m" by (cases n) auto
    with all have "loopCond dailyMax increment ?sr ?sw 0 m" by simp
    then have "rungReps ?sr m \<ge> Fin 1" by (simp add: loopCond_def)
    then show ?thesis
      using m by (cases ?sr) (simp_all add: rungReps_Fin)
  qed
  from exit g len n400 strict bounded show ?thesis by simp
qed


theorem ladderLoop_guard_never_decides_witness:
  "Fin 12 \<le> Fin 400
   \<and> ladderLoop (Fin 40) (Fin 10) []
        (fst (startPoint (Fin 40) (Fin 10) (Fin 12) False))
        (snd (startPoint (Fin 40) (Fin 10) (Fin 12) False)) 0
      = ([\<lparr>weight = Fin 20, reps = Fin 3, external = None\<rparr>,
          \<lparr>weight = Fin 30, reps = Fin 2, external = None\<rparr>,
          \<lparr>weight = Fin 40, reps = Fin 1, external = None\<rparr>], Fin 0, Fin 50, 3)
   \<and> \<not> (Fin 0 \<ge> Fin 1 \<and> Fin 50 \<le> Fin 40 + Fin (1 / 1000000))
   \<and> (3::nat) \<le> 400
   \<and> Fin (real (3::nat)) \<le> fst (startPoint (Fin 40) (Fin 10) (Fin 12) False)"
proof -
  have h1: "Fin 12 \<le> Fin 400" by simp
  have h2: "ladderLoop (Fin 40) (Fin 10) []
        (fst (startPoint (Fin 40) (Fin 10) (Fin 12) False))
        (snd (startPoint (Fin 40) (Fin 10) (Fin 12) False)) 0
      = ([\<lparr>weight = Fin 20, reps = Fin 3, external = None\<rparr>,
          \<lparr>weight = Fin 30, reps = Fin 2, external = None\<rparr>,
          \<lparr>weight = Fin 40, reps = Fin 1, external = None\<rparr>], Fin 0, Fin 50, 3)"
    by code_simp
  from ladderLoop_guard_never_decides [OF h1 h2] h1 h2 show ?thesis by simp
qed

section \<open>The rows of a ladder plan\<close>

lemma finalSingle_cases:
  "finalSingle T rows = rows \<and> rows \<noteq> [] \<or> finalSingle T rows = rows @ [single T]"
  by (auto simp: finalSingle_def single_def Let_def)

lemma withExternal_False [simp]: "withExternal False bw s = s"
  by (simp add: withExternal_def)

lemma roundTo_Fin_ex: "\<exists>a. roundToNearest2point5 (Fin x) = Fin a"
  using roundTo_Fin by blast

lemma ladderPlan_sets:
  assumes "truthy T" and "truthy inc"
  shows "sets (ladderPlan T inc cap p bw)
           = map (withExternal p bw) (finalSingle T (loopRows T inc cap p))"
proof -
  have "withExternal p bw = (\<lambda>s. if p then s\<lparr>external := Some (round2 (weight s - bw))\<rparr> else s)"
    by (rule ext) (simp add: withExternal_def)
  then show ?thesis
    using assms by (simp add: ladderPlan_def Let_def split_beta loopRows_def)
qed


lemma weight_withExternal [simp]: "weight (withExternal p bw s) = weight s"
  by (simp add: withExternal_def)

lemma reps_withExternal [simp]: "reps (withExternal p bw s) = reps s"
  by (simp add: withExternal_def)

lemma external_withExternal [simp]:
  "external (withExternal True bw s) = Some (round2 (weight s - bw))"
  by (simp add: withExternal_def)

lemma loopRows_unfold:
  "\<exists>n. loopRows T inc cap p
          = map (rung inc (fst (startPoint T inc cap p)) (snd (startPoint T inc cap p))) [0..<n]
       \<and> (\<forall>k<n. loopCond T inc (fst (startPoint T inc cap p)) (snd (startPoint T inc cap p)) 0 k)
       \<and> \<not> loopCond T inc (fst (startPoint T inc cap p)) (snd (startPoint T inc cap p)) 0 n"
  using ladderLoop_unfold [of T inc "[]" "fst (startPoint T inc cap p)" "snd (startPoint T inc cap p)" 0]
  by (auto simp: loopRows_def)

section \<open>Assistance on a pull-up ladder\<close>

lemma round2_negative:
  assumes "Fin a + Fin 0.01 \<le> bw"
  shows "round2 (Fin a - bw) < Fin 0"
proof (cases bw)
  case (Fin b)
  with assms have ab: "a - b \<le> - (1 / 100)" by simp
  have "(1::real) / 2 ^ 52 < 1 / 400" by simp
  with ab have "(a - b + 1 / 2 ^ 52) * 100 + 1 / 2 < 0" by simp
  then have "round ((a - b + 1 / 2 ^ 52) * 100) < 0"
    unfolding round_def by (simp add: floor_less_iff)
  then show ?thesis
    using Fin by (simp add: round2_def EPSILON_def divide_neg_pos)
next
  case PInf
  then show ?thesis by (simp add: round2_def EPSILON_def minus_number_def)
next
  case NInf
  with assms show ?thesis by simp
next
  case NaN
  with assms show ?thesis by simp
qed

lemma pullup_start:
  assumes "0 < d" and "0 < i" and "cap \<noteq> NaN"
  shows "\<exists>s. startPoint (Fin d) (Fin i) cap True = (Fin s, Fin (d - i * (s - 1)))
           \<and> 1 \<le> s \<and> i * (s - 1) \<le> d"
proof -
  define m :: real where "m = of_int \<lfloor>1 + d / i\<rfloor>"
  have m1: "1 \<le> m"
    using assms by (simp add: m_def)
  have "m \<le> 1 + d / i" by (simp add: m_def)
  then have "(m - 1) * i \<le> d"
    using assms by (simp add: field_simps)
  then have md: "i * (m - 1) \<le> d" by (simp add: mult.commute)
  have fl: "Math_floor (Fin 1 + Fin d / Fin i) = Fin m"
    using assms by (simp add: m_def)
  have bound: "i * (s - 1) \<le> d" if "s \<le> m" for s
  proof -
    have "i * (s - 1) \<le> i * (m - 1)"
      using that assms by (intro mult_left_mono) simp_all
    with md show ?thesis by simp
  qed
  have "\<exists>s. Math_max (Fin 1) (Math_min cap (Fin m)) = Fin s \<and> 1 \<le> s \<and> s \<le> m"
    using assms(3) m1 by (cases cap) (auto simp: Math_max_def Math_min_def)
  then obtain s where s: "Math_max (Fin 1) (Math_min cap (Fin m)) = Fin s" "1 \<le> s" "s \<le> m"
    by blast
  have nonneg: "\<not> d - i * (s - 1) < 0"
    using bound [OF s(3)] by simp
  have "startPoint (Fin d) (Fin i) cap True = (Fin s, Fin (d - i * (s - 1)))"
    unfolding startPoint_def Let_def fl s(1) using nonneg by simp
  with s(2) bound [OF s(3)] show ?thesis by blast
qed

text \<open>
  Claim C5.  The claim: a pull-up ladder for a positive finite \<open>dailyMax\<close> below
  \<open>bodyweight\<close> and a positive finite increment has a row with negative \<open>external\<close>.  The
  row weights are rounded to multiples of 2.5 first: for \<open>dailyMax = 79\<close>,
  \<open>bodyweight = 80\<close> and \<open>increment = 100\<close> the ladder is the one row of weight 80, and
  its \<open>external\<close> is 0.
\<close>

theorem ladderPlan_pullup_no_negative_external:
  "sets (ladderPlan (Fin 79) (Fin 100) (Fin 12) True (Fin 80))
     = [\<lparr>weight = Fin 80, reps = Fin 1, external = Some (Fin 0)\<rparr>]"
  by code_simp

text \<open>
  Claim C5, amended.  A pull-up ladder for a positive finite \<open>dailyMax\<close> and a positive
  finite increment has a row with negative \<open>external\<close> whenever the rounded daily max,
  \<open>roundToNearest2point5 dailyMax\<close>, is at least 0.01 below \<open>bodyweight\<close>, for every
  \<open>startRepCap\<close>.
\<close>

theorem ladderPlan_pullup_assistance_shown:
  assumes "0 < d" and "0 < i"
    and bw: "roundToNearest2point5 (Fin d) + Fin 0.01 \<le> bodyweight"
  shows "\<exists>s \<in> set (sets (ladderPlan (Fin d) (Fin i) startRepCap True bodyweight)).
           \<exists>e. external s = Some e \<and> e < Fin 0"
proof -
  let ?rows = "loopRows (Fin d) (Fin i) startRepCap True"
  have sets: "sets (ladderPlan (Fin d) (Fin i) startRepCap True bodyweight)
               = map (withExternal True bodyweight) (finalSingle (Fin d) ?rows)"
    using assms by (intro ladderPlan_sets) simp_all
  have "\<exists>s \<in> set (finalSingle (Fin d) ?rows). \<exists>a. weight s = Fin a \<and> Fin a + Fin 0.01 \<le> bodyweight"
  proof (cases "?rows = []")
    case True
    then have "finalSingle (Fin d) ?rows = [single (Fin d)]"
      using finalSingle_cases [of "Fin d" ?rows] by auto
    moreover obtain a where "roundToNearest2point5 (Fin d) = Fin a"
      using roundTo_Fin_ex by blast
    ultimately show ?thesis
      using bw by (auto simp: single_def)
  next
    case False
    let ?sr = "fst (startPoint (Fin d) (Fin i) startRepCap True)"
    let ?sw = "snd (startPoint (Fin d) (Fin i) startRepCap True)"
    obtain n where eq: "?rows = map (rung (Fin i) ?sr ?sw) [0..<n]"
      and all: "\<forall>k<n. loopCond (Fin d) (Fin i) ?sr ?sw 0 k"
      using loopRows_unfold [of "Fin d" "Fin i" startRepCap True] by blast
    with False have n: "0 < n" by (cases n) auto
    with all have c0: "loopCond (Fin d) (Fin i) ?sr ?sw 0 0" by blast
    have cap: "startRepCap \<noteq> NaN"
    proof
      assume "startRepCap = NaN"
      then have "?sr = NaN"
        by (simp add: startPoint_def Let_def Math_max_def Math_min_def)
      with c0 show False by (simp add: loopCond_def)
    qed
    from pullup_start [OF assms(1,2) cap] obtain s where
      sp: "startPoint (Fin d) (Fin i) startRepCap True = (Fin s, Fin (d - i * (s - 1)))"
      and s: "1 \<le> s" "i * (s - 1) \<le> d"
      by blast
    from eq n have "rung (Fin i) (Fin s) (Fin (d - i * (s - 1))) 0 \<in> set ?rows"
      by (auto simp: sp image_iff)
    moreover have "set ?rows \<subseteq> set (finalSingle (Fin d) ?rows)"
      using finalSingle_cases [of "Fin d" ?rows] by auto
    moreover have "d - i * (s - 1) \<le> d"
      using s assms by simp
    then have "roundToNearest2point5 (Fin (d - i * (s - 1))) \<le> roundToNearest2point5 (Fin d)"
      by (rule roundTo_mono)
    then have "roundToNearest2point5 (Fin (d - i * (s - 1))) + Fin 0.01 \<le> bodyweight"
      using bw by (cases bodyweight) (simp_all add: roundTo_Fin)
    moreover obtain a where "roundToNearest2point5 (Fin (d - i * (s - 1))) = Fin a"
      using roundTo_Fin_ex by blast
    ultimately show ?thesis
      by (intro bexI[of _ "rung (Fin i) (Fin s) (Fin (d - i * (s - 1))) 0"])
         (auto simp: rung_def)
  qed
  then obtain s a where s: "s \<in> set (finalSingle (Fin d) ?rows)"
    and a: "weight s = Fin a" "Fin a + Fin 0.01 \<le> bodyweight"
    by blast
  from s have "withExternal True bodyweight s
                 \<in> set (sets (ladderPlan (Fin d) (Fin i) startRepCap True bodyweight))"
    by (simp add: sets)
  moreover have "external (withExternal True bodyweight s) = Some (round2 (Fin a - bodyweight))"
    by (simp add: a)
  ultimately show ?thesis
    using round2_negative [OF a(2)] by blast
qed


theorem ladderPlan_pullup_assistance_shown_witness:
  "(0::real) < 60 \<and> (0::real) < 2.5
   \<and> roundToNearest2point5 (Fin 60) + Fin 0.01 \<le> Fin 80
   \<and> (\<exists>s \<in> set (sets (ladderPlan (Fin 60) (Fin 2.5) (Fin 8) True (Fin 80))).
           \<exists>e. external s = Some e \<and> e < Fin 0)"
proof -
  have h1: "(0::real) < 60" and h2: "(0::real) < 2.5" by simp_all
  have h3: "roundToNearest2point5 (Fin 60) + Fin 0.01 \<le> Fin 80"
    by (simp add: roundTo_Fin)
  from ladderPlan_pullup_assistance_shown [OF h1 h2 h3, of "Fin 8"] h1 h2 h3 show ?thesis
    by blast
qed

section \<open>The order of the rows of a ladder\<close>

lemma rungWeight_PInf [simp]: "rungWeight (Fin i) PInf k = PInf"
  by (induction k) (simp_all add: rungWeight_Suc)

lemma rungWeight_NInf [simp]: "rungWeight (Fin i) NInf k = NInf"
  by (induction k) (simp_all add: rungWeight_Suc)

lemma rungWeight_NaN [simp]: "rungWeight inc NaN k = NaN"
  by (induction k) (simp_all add: rungWeight_Suc)

lemma number_le_refl: "x \<noteq> NaN \<Longrightarrow> x \<le> x" for x :: number
  by (cases x) simp_all

lemma rung_weight_mono:
  assumes "0 \<le> i" and "j \<le> k" and "rungWeight (Fin i) w k \<noteq> NaN"
  shows "weight (rung (Fin i) r w j) \<le> weight (rung (Fin i) r w k)"
proof (cases w)
  case (Fin x)
  have "real j * i \<le> real k * i"
    using assms by (intro mult_right_mono) simp_all
  then show ?thesis
    using Fin by (simp add: rung_def rungWeight_Fin roundTo_mono)
qed (use assms in \<open>simp_all add: rung_def\<close>)

lemma rung_reps_mono:
  assumes "j \<le> k" and "rungReps r k \<ge> Fin 1"
  shows "reps (rung inc r w k) \<le> reps (rung inc r w j)"
  using assms by (cases r) (simp_all add: rung_def rungReps_Fin)

lemma roundTo_below:
  assumes "roundToNearest2point5 v < T"
  shows "roundToNearest2point5 v \<le> roundToNearest2point5 T"
proof (cases v)
  case v: (Fin a)
  show ?thesis
  proof (cases T)
    case (Fin d)
    with assms v have "of_int (round (a / 2.5)) * 2.5 < d"
      by (simp add: roundTo_Fin)
    then have "of_int (round (a / 2.5)) \<le> d / 2.5"
      by (simp add: field_simps)
    then have "round (of_int (round (a / 2.5)) :: real) \<le> round (d / 2.5)"
      by (rule round_mono)
    then show ?thesis
      using v Fin by (simp add: roundTo_Fin)
  qed (use assms v in \<open>simp_all add: roundTo_Fin\<close>)
next
  case NInf
  with assms show ?thesis by (cases T) (simp_all add: roundTo_Fin)
qed (use assms in simp_all)

lemma finalSingle_appended:
  assumes "finalSingle T rows = rows @ [single T]" and "rows \<noteq> []"
  shows "weight (last rows) < T"
  using assms by (auto simp: finalSingle_def single_def Let_def split: if_splits)

lemma finalSingle_nth:
  "k < length rows \<Longrightarrow> finalSingle T rows ! k = rows ! k"
  using finalSingle_cases [of T rows] by (auto simp: nth_append)

lemma ladderPlan_empty:
  "\<not> (truthy T \<and> truthy inc) \<Longrightarrow> sets (ladderPlan T inc cap p bw) = []"
  by (auto simp: ladderPlan_def)

text \<open>
  Claim C10.  The claim: for a positive finite increment the rows of a non-empty ladder
  have nondecreasing weights and nonincreasing reps, and each rung the loop pushes has
  exactly one rep fewer than the rung before it.  The last part fails when \<open>dailyMax\<close> and
  \<open>startRepCap\<close> are both \<open>+Infinity\<close>: the barbell ladder then starts with
  \<open>reps = Infinity\<close>, and \<open>Infinity - 1\<close> is \<open>Infinity\<close>, so every rung has the same reps.
  (It fails for finite reps above \<open>2^53\<close> as well, where a double minus 1 can round back
  to the same double.)
\<close>

theorem ladderPlan_infinite_reps_do_not_decrease:
  "Suc 0 < length (loopRows PInf (Fin 10) PInf False)
   \<and> reps (sets (ladderPlan PInf (Fin 10) PInf False (Fin 80)) ! 0) = PInf
   \<and> reps (sets (ladderPlan PInf (Fin 10) PInf False (Fin 80)) ! Suc 0) = PInf"
proof -
  let ?L = "loopRows PInf (Fin 10) PInf False"
  have sp: "startPoint PInf (Fin 10) PInf False = (PInf, Fin 20)"
    by (simp add: startPoint_def Let_def BAR_def minus_number_def)
  have c: "loopCond PInf (Fin 10) PInf (Fin 20) 0 k = (k < 400)" for k
    by (simp add: loopCond_def rungWeight_Fin)
  obtain n where L: "?L = map (rung (Fin 10) PInf (Fin 20)) [0..<n]"
    and stop: "\<not> loopCond PInf (Fin 10) PInf (Fin 20) 0 n"
    using loopRows_unfold [of PInf "Fin 10" PInf False] by (auto simp: sp)
  from stop have n: "400 \<le> n" by (simp add: c)
  have sets: "sets (ladderPlan PInf (Fin 10) PInf False (Fin 80))
               = map (withExternal False (Fin 80)) (finalSingle PInf ?L)"
    by (intro ladderPlan_sets) simp_all
  have lenF: "length ?L \<le> length (finalSingle PInf ?L)"
    using finalSingle_cases [of PInf ?L] by auto
  have len: "length ?L = n" by (simp add: L)
  have "reps (sets (ladderPlan PInf (Fin 10) PInf False (Fin 80)) ! k) = PInf" if "k < n" for k
    using that lenF by (simp add: sets len finalSingle_nth) (simp add: L rung_def)
  with n len show ?thesis by simp
qed

text \<open>
  Claim C10, amended.  For a positive finite increment, the rows of a non-empty ladder have
  nondecreasing weights and nonincreasing reps from the first row to the last; and when
  \<open>startRepCap\<close> is at most \<open>2^53 = 9007199254740992\<close>, the reps of the rungs the loop pushes
  (the first \<open>length loopRows\<close> rows) are finite and each rung has exactly one rep fewer
  than the rung before it: a rung with a successor has reps \<open>y\<close> from 2 to \<open>2^53\<close> and its
  successor has \<open>y - 1\<close>.  In that range the subtraction is exact in doubles too: when \<open>y\<close>
  is a double, \<open>y - 1\<close> rounded to a double is \<open>y - 1\<close>.
\<close>

theorem ladderPlan_rows_ordered:
  assumes i: "0 < i"
    and ne: "sets (ladderPlan dailyMax (Fin i) startRepCap isPullup bodyweight) \<noteq> []"
  shows "sorted_wrt (\<lambda>a b. weight a \<le> weight b)
           (sets (ladderPlan dailyMax (Fin i) startRepCap isPullup bodyweight))
       \<and> sorted_wrt (\<lambda>a b. reps b \<le> reps a)
           (sets (ladderPlan dailyMax (Fin i) startRepCap isPullup bodyweight))
       \<and> (startRepCap \<le> Fin 9007199254740992 \<longrightarrow>
            (\<forall>k. Suc k < length (loopRows dailyMax (Fin i) startRepCap isPullup) \<longrightarrow>
               (\<exists>y. 2 \<le> y \<and> y \<le> 9007199254740992
                  \<and> reps (sets (ladderPlan dailyMax (Fin i) startRepCap isPullup bodyweight) ! k)
                       = Fin y
                  \<and> reps (sets (ladderPlan dailyMax (Fin i) startRepCap isPullup bodyweight) ! Suc k)
                       = Fin (y - 1)
                  \<and> (toDouble y = Fin y \<longrightarrow> fsub (Fin y) (Fin 1) = Fin (y - 1)))))"
proof -
  let ?T = dailyMax
  let ?plan = "ladderPlan ?T (Fin i) startRepCap isPullup bodyweight"
  let ?L = "loopRows ?T (Fin i) startRepCap isPullup"
  let ?sr = "fst (startPoint ?T (Fin i) startRepCap isPullup)"
  let ?sw = "snd (startPoint ?T (Fin i) startRepCap isPullup)"
  let ?F = "finalSingle ?T ?L"
  from ne have t: "truthy ?T"
    using ladderPlan_empty [of ?T "Fin i"] by blast
  then have sets: "sets ?plan = map (withExternal isPullup bodyweight) ?F"
    using i by (intro ladderPlan_sets) simp_all
  obtain n where L: "?L = map (rung (Fin i) ?sr ?sw) [0..<n]"
    and all: "\<forall>k<n. loopCond ?T (Fin i) ?sr ?sw 0 k"
    using loopRows_unfold [of ?T "Fin i" startRepCap isPullup] by blast
  have len: "length ?L = n" by (simp add: L)
  have nth: "?L ! k = rung (Fin i) ?sr ?sw k" if "k < n" for k
    using that by (simp add: L)
  have wk: "rungWeight (Fin i) ?sw k \<noteq> NaN" and rk: "rungReps ?sr k \<ge> Fin 1" if "k < n" for k
    using all that by (auto simp: loopCond_def)
  have wmono: "weight (?L ! a) \<le> weight (?L ! b)" if "a \<le> b" "b < n" for a b
    using that i wk [of b] by (simp add: nth rung_weight_mono)
  have rmono: "reps (?L ! b) \<le> reps (?L ! a)" if "a \<le> b" "b < n" for a b
    using that rk [of b] by (simp add: nth rung_reps_mono)
  have Lw: "sorted_wrt (\<lambda>a b. weight a \<le> weight b) ?L"
    unfolding sorted_wrt_iff_nth_less using wmono by (simp add: len)
  have Lr: "sorted_wrt (\<lambda>a b. reps b \<le> reps a) ?L"
    unfolding sorted_wrt_iff_nth_less using rmono by (simp add: len)
  have Fw: "sorted_wrt (\<lambda>a b. weight a \<le> weight b) ?F"
    and Fr: "sorted_wrt (\<lambda>a b. reps b \<le> reps a) ?F"
  proof -
    consider "?F = ?L" | "?F = ?L @ [single ?T]"
      using finalSingle_cases [of ?T ?L] by blast
    then have "sorted_wrt (\<lambda>a b. weight a \<le> weight b) ?F
             \<and> sorted_wrt (\<lambda>a b. reps b \<le> reps a) ?F"
    proof cases
      case 1
      with Lw Lr show ?thesis by simp
    next
      case 2
      have "weight x \<le> weight (single ?T) \<and> reps (single ?T) \<le> reps x" if "x \<in> set ?L" for x
      proof -
        from that obtain k where k: "k < n" "x = ?L ! k"
          by (metis in_set_conv_nth len)
        then have n0: "?L \<noteq> []" using len by auto
        then have "last ?L = ?L ! (n - 1)"
          by (simp add: last_conv_nth len)
        with finalSingle_appended [OF 2 n0] have "weight (?L ! (n - 1)) < ?T" by simp
        moreover have "weight (?L ! (n - 1)) = roundToNearest2point5 (rungWeight (Fin i) ?sw (n - 1))"
          using k by (simp add: nth rung_def)
        ultimately have "weight (?L ! (n - 1)) \<le> weight (single ?T)"
          using roundTo_below [of "rungWeight (Fin i) ?sw (n - 1)" ?T] by (simp add: single_def)
        moreover have "weight x \<le> weight (?L ! (n - 1))"
          using k wmono [of k "n - 1"] by simp
        ultimately have "weight x \<le> weight (single ?T)"
          by (rule number_le_trans [rotated])
        moreover have "reps (single ?T) \<le> reps x"
          using k rk [of k] by (simp add: nth rung_def single_def)
        ultimately show ?thesis by simp
      qed
      with Lw Lr show ?thesis
        by (simp add: 2 sorted_wrt_append)
    qed
    then show "sorted_wrt (\<lambda>a b. weight a \<le> weight b) ?F"
      and "sorted_wrt (\<lambda>a b. reps b \<le> reps a) ?F" by simp_all
  qed
  have one: "\<exists>y. 2 \<le> y \<and> y \<le> 9007199254740992
               \<and> reps (sets ?plan ! k) = Fin y \<and> reps (sets ?plan ! Suc k) = Fin (y - 1)
               \<and> (toDouble y = Fin y \<longrightarrow> fsub (Fin y) (Fin 1) = Fin (y - 1))"
    if H: "startRepCap \<le> Fin 9007199254740992" and k: "Suc k < length ?L" for k
  proof -
    from k have kn: "k < n" "Suc k < n" by (simp_all add: len)
    have lenF: "length ?L \<le> length ?F"
      using finalSingle_cases [of ?T ?L] by auto
    from rk [of 0] kn have ge: "?sr \<ge> Fin 1" by simp
    then have "?sr \<noteq> NaN" by auto
    with startReps_cases [of ?T "Fin i" startRepCap isPullup]
    have "?sr \<le> startRepCap \<or> ?sr = Fin 1" by blast
    then have "?sr \<le> Fin 9007199254740992"
    proof
      assume "?sr \<le> startRepCap"
      then show ?thesis using H by (rule number_le_trans)
    next
      assume "?sr = Fin 1"
      then show ?thesis by simp
    qed
    with ge obtain s where s: "?sr = Fin s" and s53: "s \<le> 9007199254740992"
      by (cases ?sr) simp_all
    define y where "y = s - real k"
    have rk0: "reps (sets ?plan ! k) = Fin y"
      using kn lenF by (simp add: sets len finalSingle_nth nth rung_def s rungReps_Fin y_def)
    have rk1: "reps (sets ?plan ! Suc k) = Fin (y - 1)"
      using kn lenF by (simp add: sets len finalSingle_nth nth rung_def s rungReps_Fin y_def)
    from rk [OF kn(2)] have y2: "2 \<le> y"
      by (simp add: s rungReps_Fin y_def)
    have y53: "y \<le> 2 ^ 53"
      using s53 by (simp add: y_def)
    have "fsub (Fin y) (Fin 1) = Fin (y - 1)" if "toDouble y = Fin y"
      using that y2 y53 by (intro fsub_one_exact) simp_all
    with rk0 rk1 y2 y53 show ?thesis
      by (intro exI[of _ y]) simp
  qed
  from Fw Fr one show ?thesis
    by (simp add: sets sorted_wrt_map)
qed


theorem ladderPlan_rows_ordered_witness:
  "(0::real) < 10
   \<and> sets (ladderPlan (Fin 160) (Fin 10) (Fin 12) False (Fin 80)) \<noteq> []
   \<and> Fin 12 \<le> Fin 9007199254740992
   \<and> Suc 0 < length (loopRows (Fin 160) (Fin 10) (Fin 12) False)
   \<and> sorted_wrt (\<lambda>a b. weight a \<le> weight b)
        (sets (ladderPlan (Fin 160) (Fin 10) (Fin 12) False (Fin 80)))
   \<and> sorted_wrt (\<lambda>a b. reps b \<le> reps a)
        (sets (ladderPlan (Fin 160) (Fin 10) (Fin 12) False (Fin 80)))
   \<and> (\<exists>y. 2 \<le> y \<and> y \<le> 9007199254740992
         \<and> reps (sets (ladderPlan (Fin 160) (Fin 10) (Fin 12) False (Fin 80)) ! 0) = Fin y
         \<and> reps (sets (ladderPlan (Fin 160) (Fin 10) (Fin 12) False (Fin 80)) ! Suc 0)
             = Fin (y - 1))
   \<and> toDouble 12 = Fin 12 \<and> fsub (Fin 12) (Fin 1) = Fin (12 - 1)"
proof -
  have h1: "(0::real) < 10" by simp
  have h2: "sets (ladderPlan (Fin 160) (Fin 10) (Fin 12) False (Fin 80)) \<noteq> []"
    by code_simp
  have h3: "Suc 0 < length (loopRows (Fin 160) (Fin 10) (Fin 12) False)"
    by code_simp
  have h4: "Fin 12 \<le> Fin 9007199254740992" by simp
  have r0: "reps (sets (ladderPlan (Fin 160) (Fin 10) (Fin 12) False (Fin 80)) ! 0) = Fin 12"
    by code_simp
  have d: "toDouble 12 = Fin 12"
    by (rule toDouble_small [where k = 49 and m = 6755399441055744]) simp_all
  from ladderPlan_rows_ordered [OF h1 h2, of] h3 h4 obtain y where
    s: "sorted_wrt (\<lambda>a b. weight a \<le> weight b)
          (sets (ladderPlan (Fin 160) (Fin 10) (Fin 12) False (Fin 80)))"
       "sorted_wrt (\<lambda>a b. reps b \<le> reps a)
          (sets (ladderPlan (Fin 160) (Fin 10) (Fin 12) False (Fin 80)))"
    and y: "2 \<le> y" "y \<le> 9007199254740992"
       "reps (sets (ladderPlan (Fin 160) (Fin 10) (Fin 12) False (Fin 80)) ! 0) = Fin y"
       "reps (sets (ladderPlan (Fin 160) (Fin 10) (Fin 12) False (Fin 80)) ! Suc 0) = Fin (y - 1)"
       "toDouble y = Fin y \<longrightarrow> fsub (Fin y) (Fin 1) = Fin (y - 1)"
    by blast
  from y(3) r0 have "y = 12" by simp
  with y(5) d have "fsub (Fin 12) (Fin 1) = Fin (12 - 1)" by simp
  with h1 h2 h3 h4 s y(1-4) d show ?thesis
    by blast
qed

section \<open>A lower bound on the weights of the loop\<close>

lemma roundTo_ge_20:
  assumes "v \<ge> Fin 18.75"
  shows "roundToNearest2point5 v \<ge> Fin 20"
proof (cases v)
  case (Fin a)
  with assms have "(8::real) \<le> a / 2.5 + 1 / 2" by simp
  then have "\<lfloor>8::real\<rfloor> \<le> \<lfloor>a / 2.5 + 1 / 2\<rfloor>" by (rule floor_mono)
  then have "8 \<le> round (a / 2.5)" by (simp add: round_def)
  then have "(8::real) \<le> of_int (round (a / 2.5))" by linarith
  then show ?thesis using Fin by (simp add: roundTo_Fin)
qed (use assms in simp_all)

lemma roundTo_ge_0:
  assumes "v \<ge> Fin (- 1.25)"
  shows "roundToNearest2point5 v \<ge> Fin 0"
proof (cases v)
  case (Fin a)
  with assms have "(0::real) \<le> a / 2.5 + 1 / 2" by simp
  then have "\<lfloor>0::real\<rfloor> \<le> \<lfloor>a / 2.5 + 1 / 2\<rfloor>" by (rule floor_mono)
  then have "0 \<le> round (a / 2.5)" by (simp add: round_def)
  then have "(0::real) \<le> of_int (round (a / 2.5))" by linarith
  then show ?thesis using Fin by (simp add: roundTo_Fin)
qed (use assms in simp_all)

lemma rungWeight_PInf_inc: "w \<ge> Fin b \<Longrightarrow> rungWeight PInf w (Suc k) = PInf"
proof (induction k arbitrary: w)
  case 0
  then show ?case by (cases w) (simp_all add: rungWeight_Suc)
next
  case (Suc k)
  from Suc.prems have "w + PInf = PInf" by (cases w) simp_all
  moreover have "PInf \<ge> Fin b" by simp
  ultimately show ?case
    using Suc.IH [of PInf] by (simp add: rungWeight_Suc [of PInf w])
qed

text \<open>
  A lower bound on the weights of the loop: whenever the loop condition holds at
  iteration \<open>k\<close>, the weight there is at least \<open>b\<close>, if the start weight is, and if for a
  negative increment the ladder has a single rung, or an infinite start weight, or its
  last planned rung \<open>x + (s - 1) * i\<close> is at least \<open>b\<close>.
\<close>

lemma loop_weight_lower_bound:
  assumes inc: "truthy inc"
    and start: "sw \<ge> Fin b"
    and neg: "inc < Fin 0 \<Longrightarrow>
                sr < Fin 2 \<or> sw = PInf
                \<or> (\<exists>s x i. sr = Fin s \<and> sw = Fin x \<and> inc = Fin i \<and> b \<le> x + (s - 1) * i)"
    and cond: "loopCond T inc sr sw g k"
  shows "rungWeight inc sw k \<ge> Fin b"
proof (cases "inc < Fin 0")
  case False
  with inc consider i where "inc = Fin i" "0 < i" | "inc = PInf"
    by (cases inc) auto
  then show ?thesis
  proof cases
    case 1
    have nn: "0 \<le> real k * i" using 1 by simp
    show ?thesis
    proof (cases sw)
      case (Fin x)
      with start have "b \<le> x" by simp
      with nn have "b \<le> x + real k * i" by linarith
      then show ?thesis using Fin 1 by (simp add: rungWeight_Fin)
    qed (use start 1 in simp_all)
  next
    case 2
    show ?thesis
    proof (cases k)
      case 0
      then show ?thesis using start by simp
    next
      case (Suc j)
      then show ?thesis using 2 rungWeight_PInf_inc [OF start] by simp
    qed
  qed
next
  case True
  from cond have r: "rungReps sr k \<ge> Fin 1"
    and w: "rungWeight inc sw k \<le> T + Fin (1 / 1000000)"
    by (simp_all add: loopCond_def)
  from neg [OF True] consider "sr < Fin 2" | "sw = PInf"
    | s x i where "sr = Fin s" "sw = Fin x" "inc = Fin i" "b \<le> x + (s - 1) * i"
    by blast
  then show ?thesis
  proof cases
    case 1
    with r have "k = 0"
      by (cases sr) (simp_all add: rungReps_Fin)
    then show ?thesis using start by simp
  next
    case 2
    show ?thesis
    proof (cases k)
      case 0
      then show ?thesis using start by simp
    next
      case (Suc j)
      from True inc consider i where "inc = Fin i" | "inc = NInf"
        by (cases inc) auto
      then show ?thesis
      proof cases
        case 1
        then show ?thesis using 2 by simp
      next
        case 2
        have "rungWeight NInf PInf (Suc j) = NaN"
          by (simp add: rungWeight_Suc)
        with w \<open>sw = PInf\<close> 2 Suc show ?thesis by simp
      qed
    qed
  next
    case 3
    from True 3 have i: "i < 0" by simp
    from r 3 have "real k \<le> s - 1" by (simp add: rungReps_Fin)
    then have "(s - 1) * i \<le> real k * i"
      using i by (intro mult_right_mono_neg) simp_all
    with 3 show ?thesis by (simp add: rungWeight_Fin)
  qed
qed

lemma round_case_bound:
  fixes d i :: real
  assumes i: "i < 0" and d: "20 \<le> d + 1 / 1000000"
    and s: "2 \<le> (of_int (round (1 + (d - 20) / i)) :: real)"
  shows "18.75 \<le> 20 + (of_int (round (1 + (d - 20) / i)) - 1) * i"
proof -
  define s :: real where "s = of_int (round (1 + (d - 20) / i))"
  have le: "s \<le> 1 + (d - 20) / i + 1 / 2"
    unfolding s_def by (rule of_int_round_le)
  then have "s - 3 / 2 \<le> (d - 20) / i" by simp
  then have a: "d - 20 \<le> (s - 3 / 2) * i"
    using i by (simp add: field_simps)
  have s2: "2 \<le> s" using s by (simp add: s_def)
  then have "(s - 3 / 2) * i \<le> (1 / 2) * i"
    using i by (intro mult_right_mono_neg) simp_all
  with a d have b: "- (1 / 500000) \<le> i" by simp
  have "(s - 1) * i = (s - 3 / 2) * i + i / 2" by (simp add: algebra_simps)
  with a b d have "- (1 / 500000) \<le> (s - 1) * i" by simp
  then show ?thesis by (simp add: s_def)
qed

lemma floor_case_bound:
  fixes d i s :: real
  assumes i: "i < 0" and s: "s \<le> 1 + of_int \<lfloor>(d - c) / i\<rfloor>"
  shows "d \<le> c + (s - 1) * i"
proof -
  have "of_int \<lfloor>(d - c) / i\<rfloor> \<le> (d - c) / i" by simp
  with s have "s - 1 \<le> (d - c) / i" by linarith
  then have "d - c \<le> (s - 1) * i"
    using i by (simp add: field_simps)
  then show ?thesis by simp
qed


lemma finalSingle_set:
  "x \<in> set (finalSingle T rows) \<Longrightarrow> x \<in> set rows \<or> x = single T"
  using finalSingle_cases [of T rows] by auto

lemma loopRows_member:
  assumes "x \<in> set (loopRows T inc cap p)"
  shows "\<exists>k. x = rung inc (fst (startPoint T inc cap p)) (snd (startPoint T inc cap p)) k
           \<and> loopCond T inc (fst (startPoint T inc cap p)) (snd (startPoint T inc cap p)) 0 k
           \<and> loopCond T inc (fst (startPoint T inc cap p)) (snd (startPoint T inc cap p)) 0 0"
proof -
  let ?sr = "fst (startPoint T inc cap p)" and ?sw = "snd (startPoint T inc cap p)"
  obtain n where L: "loopRows T inc cap p = map (rung inc ?sr ?sw) [0..<n]"
    and all: "\<forall>k<n. loopCond T inc ?sr ?sw 0 k"
    using loopRows_unfold [of T inc cap p] by blast
  from assms L obtain k where k: "k < n" "x = rung inc ?sr ?sw k" by auto
  then have "0 < n \<or> k = 0" by simp
  with k all show ?thesis by auto
qed

section \<open>The bar floor of a barbell ladder\<close>

lemma floored_start:
  "(if x < Fin b then Fin b else x) = NaN \<or> (if x < Fin b then Fin b else x) \<ge> Fin b"
  by (cases x) auto

lemma barbell_start_weight:
  "snd (startPoint T inc cap False) = NaN \<or> snd (startPoint T inc cap False) \<ge> Fin 20"
  using floored_start [of "T - inc * (cap - Fin 1)" 20]
  by (auto simp: startPoint_def Let_def BAR_def)

lemma maxmin_Fin:
  "Math_max (Fin 1) (Math_min cap (Fin f)) = NaN
    \<or> (\<exists>s. Math_max (Fin 1) (Math_min cap (Fin f)) = Fin s \<and> (s = 1 \<or> s \<le> f))"
  by (cases cap) (auto simp: Math_max_def Math_min_def)

lemma maxmin_NInf:
  "Math_max (Fin 1) (Math_min cap NInf) = NaN \<or> Math_max (Fin 1) (Math_min cap NInf) = Fin 1"
  by (cases cap) (auto simp: Math_max_def Math_min_def)

lemma barbell_start_cases:
  fixes T inc cap :: number
  obtains
    (atBar) "Math_round (Fin 1 + (T - BAR) / inc) \<le> cap"
      "Math_round (Fin 1 + (T - BAR) / inc) \<ge> Fin 1"
      "startPoint T inc cap False = (Math_round (Fin 1 + (T - BAR) / inc), BAR)"
  | (capped) "\<not> T - inc * (cap - Fin 1) < BAR"
      "startPoint T inc cap False = (cap, T - inc * (cap - Fin 1))"
  | (clamped) "T - inc * (cap - Fin 1) < BAR"
      "startPoint T inc cap False
         = (Math_max (Fin 1) (Math_min cap (Fin 1 + Math_floor ((T - BAR) / inc))), BAR)"
proof (cases "Math_round (Fin 1 + (T - BAR) / inc) \<le> cap
              \<and> Math_round (Fin 1 + (T - BAR) / inc) \<ge> Fin 1")
  case True
  then show ?thesis
    by (intro atBar) (simp_all add: startPoint_def Let_def)
next
  case False
  show ?thesis
  proof (cases "T - inc * (cap - Fin 1) < BAR")
    case True
    with False show ?thesis
      by (intro clamped) (auto simp: startPoint_def Let_def)
  next
    case nlt: False
    with False show ?thesis
      by (intro capped) (auto simp: startPoint_def Let_def)
  qed
qed

lemma barbell_neg_Fin:
  assumes i: "i < 0" and d: "18.75 \<le> d"
    and c0: "loopCond (Fin d) (Fin i) (fst (startPoint (Fin d) (Fin i) cap False))
               (snd (startPoint (Fin d) (Fin i) cap False)) g 0"
  shows "fst (startPoint (Fin d) (Fin i) cap False) < Fin 2
       \<or> snd (startPoint (Fin d) (Fin i) cap False) = PInf
       \<or> (\<exists>s x. fst (startPoint (Fin d) (Fin i) cap False) = Fin s
              \<and> snd (startPoint (Fin d) (Fin i) cap False) = Fin x
              \<and> 18.75 \<le> x + (s - 1) * i)"
proof -
  let ?sr = "fst (startPoint (Fin d) (Fin i) cap False)"
  let ?sw = "snd (startPoint (Fin d) (Fin i) cap False)"
  from c0 have r1: "?sr \<ge> Fin 1" and wT: "?sw \<le> Fin d + Fin (1 / 1000000)"
    by (simp_all add: loopCond_def)
  show ?thesis
  using barbell_start_cases [of "Fin d" "Fin i" cap]
  proof cases
    case atBar
    define r0 :: real where "r0 = of_int (round (1 + (d - 20) / i))"
    have rr: "Math_round (Fin 1 + (Fin d - BAR) / Fin i) = Fin r0"
      using i by (simp add: BAR_def r0_def)
    from atBar(3) [unfolded rr] have sp: "?sr = Fin r0" "?sw = Fin 20"
      by (simp_all add: BAR_def)
    show ?thesis
    proof (cases "r0 < 2")
      case True
      then show ?thesis by (simp add: sp)
    next
      case False
      from wT have "20 \<le> d + 1 / 1000000" by (simp add: sp)
      from round_case_bound [OF i this] False have "18.75 \<le> 20 + (r0 - 1) * i"
        by (simp add: r0_def)
      then show ?thesis using sp by blast
    qed
  next
    case capped
    from capped(2) have sp: "?sr = cap" "?sw = Fin d - Fin i * (cap - Fin 1)"
      by simp_all
    from r1 sp consider c where "cap = Fin c" | "cap = PInf"
      by (cases cap) auto
    then show ?thesis
    proof cases
      case 1
      have "18.75 \<le> (d - i * (c - 1)) + (c - 1) * i"
        using d by (simp add: algebra_simps)
      then show ?thesis using sp 1 by simp
    next
      case 2
      have "?sw = PInf"
        using i sp(2) unfolding 2 by (simp add: minus_number_def)
      then show ?thesis by simp
    qed
  next
    case clamped
    define f :: real where "f = 1 + of_int \<lfloor>(d - 20) / i\<rfloor>"
    have ff: "Fin 1 + Math_floor ((Fin d - BAR) / Fin i) = Fin f"
      using i by (simp add: BAR_def f_def)
    from clamped(2) [unfolded ff]
    have sp: "?sr = Math_max (Fin 1) (Math_min cap (Fin f))" "?sw = Fin 20"
      by (simp_all add: BAR_def)
    with r1 maxmin_Fin [of cap f] obtain s where s: "?sr = Fin s" "s = 1 \<or> s \<le> f"
      by auto
    from s(2) show ?thesis
    proof
      assume "s = 1"
      then show ?thesis by (simp add: s)
    next
      assume "s \<le> f"
      then have "d \<le> 20 + (s - 1) * i"
        using floor_case_bound [OF i, of s d 20] by (simp add: f_def)
      with d have "18.75 \<le> 20 + (s - 1) * i" by simp
      then show ?thesis using s sp by blast
    qed
  qed
qed

lemma barbell_neg:
  assumes inc: "inc < Fin 0" and T: "T \<ge> Fin 18.75"
    and c0: "loopCond T inc (fst (startPoint T inc cap False)) (snd (startPoint T inc cap False)) g 0"
  shows "fst (startPoint T inc cap False) < Fin 2 \<or> snd (startPoint T inc cap False) = PInf
       \<or> (\<exists>s x i. fst (startPoint T inc cap False) = Fin s
              \<and> snd (startPoint T inc cap False) = Fin x
              \<and> inc = Fin i \<and> 18.75 \<le> x + (s - 1) * i)"
proof -
  let ?sr = "fst (startPoint T inc cap False)"
  let ?sw = "snd (startPoint T inc cap False)"
  from c0 have r1: "?sr \<ge> Fin 1" and wT: "?sw \<le> T + Fin (1 / 1000000)"
    by (simp_all add: loopCond_def)
  show ?thesis
  proof (cases "\<exists>d i. T = Fin d \<and> inc = Fin i")
    case True
    then obtain d i where "T = Fin d" "inc = Fin i" by blast
    with inc T c0 barbell_neg_Fin [of i d cap g] show ?thesis by auto
  next
    case False
    with inc T consider (a) i where "T = PInf" "inc = Fin i" "i < 0"
      | (b) d where "T = Fin d" "inc = NInf" | (c) "T = PInf" "inc = NInf"
      by (cases T; cases inc) auto
    then show ?thesis
    proof cases
      case a
      show ?thesis
      using barbell_start_cases [of T inc cap]
      proof cases
        case atBar
        with a show ?thesis by (simp add: BAR_def minus_number_def)
      next
        case capped
        with a r1 have "?sw = PInf"
          by (cases cap) (auto simp: minus_number_def)
        then show ?thesis by simp
      next
        case clamped
        with a have "?sr = Math_max (Fin 1) (Math_min cap NInf)"
          by (simp add: BAR_def minus_number_def)
        with r1 maxmin_NInf [of cap] have "?sr = Fin 1" by auto
        then show ?thesis by simp
      qed
    next
      case b
      show ?thesis
      using barbell_start_cases [of T inc cap]
      proof cases
        case atBar
        with b have "?sr = Fin 1" by (simp add: BAR_def)
        then show ?thesis by simp
      next
        case capped
        with b r1 wT have "?sw = PInf"
          by (cases cap) (auto simp: minus_number_def split: if_splits)
        then show ?thesis by simp
      next
        case clamped
        with b have "?sr = Math_max (Fin 1) (Math_min cap (Fin 1))"
          by (simp add: BAR_def)
        with r1 maxmin_Fin [of cap 1] have "?sr = Fin 1" by auto
        then show ?thesis by simp
      qed
    next
      case c
      show ?thesis
      using barbell_start_cases [of T inc cap]
      proof cases
        case atBar
        with c show ?thesis by (simp add: BAR_def minus_number_def)
      next
        case capped
        with c r1 wT have "?sw = PInf"
          by (cases cap) (auto simp: minus_number_def split: if_splits)
        then show ?thesis by simp
      next
        case clamped
        with c have "?sr = NaN"
          by (simp add: BAR_def minus_number_def Math_max_def Math_min_def)
        with r1 show ?thesis by simp
      qed
    qed
  qed
qed

text \<open>
  Claim C3.  The claim: every row of a non-empty barbell ladder has weight at least 20,
  for any \<open>dailyMax\<close> and non-zero increment.  The final single is pushed at the rounded
  \<open>dailyMax\<close> with no floor: for \<open>dailyMax = 10\<close> and \<open>increment = 10\<close> the loop pushes
  nothing (the start weight 20 is above the daily max) and the ladder is the one row of
  weight 10.
\<close>

theorem ladderPlan_barbell_row_below_bar:
  "sets (ladderPlan (Fin 10) (Fin 10) (Fin 12) False (Fin 80))
     = [\<lparr>weight = Fin 10, reps = Fin 1, external = None\<rparr>]"
  by code_simp

text \<open>
  Claim C3, amended.  Every row of a barbell ladder has weight at least 20 whenever
  \<open>dailyMax\<close> is at least 18.75, the least value that rounds to 20, for every non-zero
  increment (negative and infinite ones included) and every \<open>startRepCap\<close>.
\<close>

theorem ladderPlan_barbell_weights_above_bar:
  assumes inc: "truthy increment" and T: "dailyMax \<ge> Fin 18.75"
  shows "\<forall>s \<in> set (sets (ladderPlan dailyMax increment startRepCap False bodyweight)).
           weight s \<ge> Fin 20"
proof -
  let ?sr = "fst (startPoint dailyMax increment startRepCap False)"
  let ?sw = "snd (startPoint dailyMax increment startRepCap False)"
  from T have "truthy dailyMax" by (cases dailyMax) auto
  then have sets: "sets (ladderPlan dailyMax increment startRepCap False bodyweight)
               = map (withExternal False bodyweight)
                   (finalSingle dailyMax (loopRows dailyMax increment startRepCap False))"
    using inc by (rule ladderPlan_sets)
  have "weight x \<ge> Fin 20"
    if "x \<in> set (finalSingle dailyMax (loopRows dailyMax increment startRepCap False))" for x
  proof -
    from finalSingle_set [OF that] show ?thesis
    proof
      assume "x = single dailyMax"
      then show ?thesis using roundTo_ge_20 [OF T] by (simp add: single_def)
    next
      assume "x \<in> set (loopRows dailyMax increment startRepCap False)"
      from loopRows_member [OF this] obtain k where
        x: "x = rung increment ?sr ?sw k"
        and ck: "loopCond dailyMax increment ?sr ?sw 0 k"
        and c0: "loopCond dailyMax increment ?sr ?sw 0 0"
        by blast
      from c0 have "?sw \<noteq> NaN" by (auto simp: loopCond_def)
      with barbell_start_weight [of dailyMax increment startRepCap] have "?sw \<ge> Fin 20" by blast
      then have start: "?sw \<ge> Fin 18.75"
        by (cases ?sw) simp_all
      have "rungWeight increment ?sw k \<ge> Fin 18.75"
        using inc start barbell_neg [OF _ T c0] ck by (rule loop_weight_lower_bound)
      then show ?thesis
        using roundTo_ge_20 by (simp add: x rung_def)
    qed
  qed
  then show ?thesis by (simp add: sets)
qed

theorem ladderPlan_barbell_weights_above_bar_witness:
  "truthy (Fin 10) \<and> Fin 160 \<ge> Fin 18.75
   \<and> sets (ladderPlan (Fin 160) (Fin 10) (Fin 12) False (Fin 80)) \<noteq> []
   \<and> list_all (\<lambda>s. weight s \<ge> Fin 20)
        (sets (ladderPlan (Fin 160) (Fin 10) (Fin 12) False (Fin 80)))"
proof -
  have h1: "truthy (Fin 10)" by simp
  have h2: "Fin 160 \<ge> Fin 18.75" by simp
  have h3: "sets (ladderPlan (Fin 160) (Fin 10) (Fin 12) False (Fin 80)) \<noteq> []"
    by code_simp
  from ladderPlan_barbell_weights_above_bar [OF h1 h2, of "Fin 12" "Fin 80"] h1 h2 h3
  show ?thesis by (simp add: list_all_iff)
qed

section \<open>The zero floor of a pull-up ladder\<close>

lemma pullup_start_weight:
  "snd (startPoint T inc cap True) = NaN \<or> snd (startPoint T inc cap True) \<ge> Fin 0"
  using floored_start [of _ 0] by (simp add: startPoint_def Let_def)

lemma pullup_neg_Fin:
  assumes i: "i < 0" and d: "- 1.25 \<le> d"
    and c0: "loopCond (Fin d) (Fin i) (fst (startPoint (Fin d) (Fin i) cap True))
               (snd (startPoint (Fin d) (Fin i) cap True)) g 0"
  shows "\<exists>s x. fst (startPoint (Fin d) (Fin i) cap True) = Fin s
             \<and> snd (startPoint (Fin d) (Fin i) cap True) = Fin x
             \<and> - 1.25 \<le> x + (s - 1) * i"
proof -
  let ?sr = "Math_max (Fin 1) (Math_min cap (Math_floor (Fin 1 + Fin d / Fin i)))"
  have sr: "fst (startPoint (Fin d) (Fin i) cap True) = ?sr"
    by (simp add: startPoint_def Let_def)
  from c0 have "?sr \<ge> Fin 1" by (simp add: loopCond_def sr)
  then obtain s where s: "?sr = Fin s" "1 \<le> s"
    using i maxmin_Fin [of cap "of_int \<lfloor>1 + d / i\<rfloor>"] by auto
  have sp: "startPoint (Fin d) (Fin i) cap True
             = (Fin s, if d - i * (s - 1) < 0 then Fin 0 else Fin (d - i * (s - 1)))"
    unfolding startPoint_def Let_def s(1) by simp
  show ?thesis
  proof (cases "d - i * (s - 1) < 0")
    case True
    then have "- 1.25 \<le> 0 + (s - 1) * i"
      using d by (simp add: algebra_simps)
    with True sp show ?thesis by simp
  next
    case False
    have "- 1.25 \<le> (d - i * (s - 1)) + (s - 1) * i"
      using d by (simp add: algebra_simps)
    with False sp show ?thesis by simp
  qed
qed

lemma pullup_neg:
  assumes inc: "inc < Fin 0" and T: "T \<ge> Fin (- 1.25)"
    and c0: "loopCond T inc (fst (startPoint T inc cap True)) (snd (startPoint T inc cap True)) g 0"
  shows "fst (startPoint T inc cap True) < Fin 2 \<or> snd (startPoint T inc cap True) = PInf
       \<or> (\<exists>s x i. fst (startPoint T inc cap True) = Fin s \<and> snd (startPoint T inc cap True) = Fin x
              \<and> inc = Fin i \<and> - 1.25 \<le> x + (s - 1) * i)"
proof -
  let ?sr = "fst (startPoint T inc cap True)"
  from c0 have r1: "?sr \<ge> Fin 1" by (simp add: loopCond_def)
  from inc consider i where "inc = Fin i" "i < 0" | "inc = NInf"
    by (cases inc) auto
  then show ?thesis
  proof cases
    case fin: 1
    from T consider d where "T = Fin d" "- 1.25 \<le> d" | "T = PInf"
      by (cases T) auto
    then show ?thesis
    proof cases
      case 1
      with fin pullup_neg_Fin [of i d cap g] c0 show ?thesis by auto
    next
      case 2
      with fin have "?sr = Math_max (Fin 1) (Math_min cap NInf)"
        by (simp add: startPoint_def Let_def)
      with r1 maxmin_NInf [of cap] have "?sr = Fin 1" by auto
      then show ?thesis by simp
    qed
  next
    case ninf: 2
    from T consider d where "T = Fin d" | "T = PInf"
      by (cases T) auto
    then show ?thesis
    proof cases
      case 1
      with ninf have "?sr = Math_max (Fin 1) (Math_min cap (Fin 1))"
        by (simp add: startPoint_def Let_def)
      with r1 maxmin_Fin [of cap 1] have "?sr = Fin 1" by auto
      then show ?thesis by simp
    next
      case 2
      with ninf have "?sr = NaN"
        by (simp add: startPoint_def Let_def Math_max_def Math_min_def)
      with r1 show ?thesis by simp
    qed
  qed
qed


text \<open>
  Claim C4.  The claim: every row of a non-empty pull-up ladder has weight at least 0, for
  any \<open>dailyMax\<close> and non-zero increment.  The final single is pushed at the rounded
  \<open>dailyMax\<close> with no floor: for \<open>dailyMax = -120\<close> (bodyweight 80 with an assistance of
  200) and \<open>increment = 2.5\<close> the loop pushes nothing and the ladder is the one row of
  weight \<open>-120\<close>.
\<close>

theorem ladderPlan_pullup_negative_weight:
  "sets (ladderPlan (Fin (- 120)) (Fin 2.5) (Fin 12) True (Fin 80))
     = [\<lparr>weight = Fin (- 120), reps = Fin 1, external = Some (Fin (- 200))\<rparr>]"
  by code_simp

text \<open>
  Claim C4, amended.  Every row of a pull-up ladder has weight at least 0 whenever
  \<open>dailyMax\<close> is at least \<open>-1.25\<close>, the least value that rounds to 0, for every non-zero
  increment (negative and infinite ones included) and every \<open>startRepCap\<close>.
\<close>

theorem ladderPlan_pullup_weights_nonnegative:
  assumes inc: "truthy increment" and T: "dailyMax \<ge> Fin (- 1.25)"
  shows "\<forall>s \<in> set (sets (ladderPlan dailyMax increment startRepCap True bodyweight)).
           weight s \<ge> Fin 0"
proof (cases "truthy dailyMax")
  case False
  then show ?thesis by (simp add: ladderPlan_empty)
next
  case True
  let ?sr = "fst (startPoint dailyMax increment startRepCap True)"
  let ?sw = "snd (startPoint dailyMax increment startRepCap True)"
  have sets: "sets (ladderPlan dailyMax increment startRepCap True bodyweight)
               = map (withExternal True bodyweight)
                   (finalSingle dailyMax (loopRows dailyMax increment startRepCap True))"
    using True inc by (rule ladderPlan_sets)
  have "weight x \<ge> Fin 0"
    if "x \<in> set (finalSingle dailyMax (loopRows dailyMax increment startRepCap True))" for x
  proof -
    from finalSingle_set [OF that] show ?thesis
    proof
      assume "x = single dailyMax"
      then show ?thesis using roundTo_ge_0 [OF T] by (simp add: single_def)
    next
      assume "x \<in> set (loopRows dailyMax increment startRepCap True)"
      from loopRows_member [OF this] obtain k where
        x: "x = rung increment ?sr ?sw k"
        and ck: "loopCond dailyMax increment ?sr ?sw 0 k"
        and c0: "loopCond dailyMax increment ?sr ?sw 0 0"
        by blast
      from c0 have "?sw \<noteq> NaN" by (auto simp: loopCond_def)
      with pullup_start_weight [of dailyMax increment startRepCap] have "?sw \<ge> Fin 0" by blast
      then have start: "?sw \<ge> Fin (- 1.25)"
        by (cases ?sw) simp_all
      have "rungWeight increment ?sw k \<ge> Fin (- 1.25)"
        using inc start pullup_neg [OF _ T c0] ck by (rule loop_weight_lower_bound)
      then show ?thesis
        using roundTo_ge_0 by (simp add: x rung_def)
    qed
  qed
  then show ?thesis by (simp add: sets)
qed


theorem ladderPlan_pullup_weights_nonnegative_witness:
  "truthy (Fin 2.5) \<and> Fin 60 \<ge> Fin (- 1.25)
   \<and> sets (ladderPlan (Fin 60) (Fin 2.5) (Fin 8) True (Fin 80)) \<noteq> []
   \<and> list_all (\<lambda>s. weight s \<ge> Fin 0)
        (sets (ladderPlan (Fin 60) (Fin 2.5) (Fin 8) True (Fin 80)))"
proof -
  have h1: "truthy (Fin 2.5)" by simp
  have h2: "Fin 60 \<ge> Fin (- 1.25)" by simp
  have h3: "sets (ladderPlan (Fin 60) (Fin 2.5) (Fin 8) True (Fin 80)) \<noteq> []"
    by code_simp
  from ladderPlan_pullup_weights_nonnegative [OF h1 h2, of "Fin 8" "Fin 80"] h1 h2 h3
  show ?thesis by (simp add: list_all_iff)
qed

end
